theory Spec2Isabelle
  imports Main "HOL-Library.Char_ord" "HOL-Library.List_Lexorder" "HOL-Library.Multiset"
begin

section \<open>Values, strings and errors\<close>

text \<open>
  The program (\<^verbatim>\<open>src/index.js\<close>) compares the Algolia indices of two apps, \<^verbatim>\<open>mesos\<close> and
  \<^verbatim>\<open>kubernetes\<close>. It is asynchronous JavaScript run strictly in sequence (every \<^verbatim>\<open>pMap\<close> has
  \<^verbatim>\<open>concurrency: 1\<close>), so the model is sequential state passing. A rejected promise or a
  thrown exception is the \<open>Inl\<close> of a sum.

  JSON values as the Algolia client returns them. Numbers are modelled as integers and
  strings as lists of 8-bit characters, ordered by character code. An object is an
  association list in insertion order; its keys are assumed distinct, as they are in a
  JavaScript object.
\<close>

datatype jsval =
    JNull
  | JBool bool
  | JNum int
  | JStr string
  | JArr "jsval list"
  | JObj "(string \<times> jsval) list"

text \<open>A record of an index (a "hit"): a JSON object.\<close>

type_synonym hit = "(string \<times> jsval) list"

datatype error =
    TypeError string
  | RangeError string
  | RemoteError string
  | ENOENT string

text \<open>\<^verbatim>\<open>_.endsWith(string, target)\<close>.\<close>

definition endsWith :: "string \<Rightarrow> string \<Rightarrow> bool" where
  "endsWith s t = (length t \<le> length s \<and> drop (length s - length t) s = t)"

text \<open>\<^verbatim>\<open>String.prototype.split\<close> with a one-character separator: never the empty array.\<close>

fun js_split :: "char \<Rightarrow> string \<Rightarrow> string list" where
  "js_split c [] = [[]]"
| "js_split c (x # xs) =
     (if x = c then [] # js_split c xs
      else (case js_split c xs of
              [] \<Rightarrow> [[x]]
            | w # ws \<Rightarrow> (x # w) # ws))"

text \<open>\<^verbatim>\<open>Array.prototype.join\<close>.\<close>

fun js_join :: "string \<Rightarrow> string list \<Rightarrow> string" where
  "js_join sep [] = []"
| "js_join sep [x] = x"
| "js_join sep (x # y # ys) = x @ sep @ js_join sep (y # ys)"

text \<open>
  Node's \<^verbatim>\<open>path.basename(path, ext)\<close> (POSIX): trailing slashes are dropped, the last
  component is taken, and \<^verbatim>\<open>ext\<close> is cut off when the component ends with it and is longer
  than it. A path that is \<^verbatim>\<open>ext\<close> itself gives the empty string.
\<close>

definition basename :: "string \<Rightarrow> string \<Rightarrow> string" where
  "basename path ext =
     (let trimmed = rev (dropWhile (\<lambda>c. c = CHR ''/'') (rev path));
          base = rev (takeWhile (\<lambda>c. c \<noteq> CHR ''/'') (rev trimmed))
      in if ext \<noteq> [] \<and> path = ext then []
         else if ext \<noteq> [] \<and> length ext < length base \<and> endsWith base ext
              then take (length base - length ext) base
              else base)"

section \<open>The two apps and the world outside\<close>

text \<open>\<^verbatim>\<open>_.keys(this.configs)\<close>: the configured apps, in the order of the object literal.\<close>

definition apps :: "string list" where
  "apps = [''mesos'', ''kubernetes'']"

text \<open>One item of the response of Algolia's \<^verbatim>\<open>listIndexes\<close>, with the fields the code reads.\<close>

record algolia_index =
  item_name :: string
  entries :: int
  item_dataSize :: int
  item_fileSize :: int
  updatedAt :: string

text \<open>What \<^verbatim>\<open>downloadIndexList\<close> keeps of an item (lines 54-60).\<close>

record index_summary =
  name :: string
  recordCount :: int
  dataSize :: int
  fileSize :: int
  lastUpdate :: string

text \<open>
  The remote service, as the code consumes it: \<^verbatim>\<open>listIndexes\<close> of an app answers with its
  items or fails with a message; \<^verbatim>\<open>browseAll\<close> of an index of an app ends with all hits
  (the \<^verbatim>\<open>result\<close> events concatenated, then \<^verbatim>\<open>end\<close>) or with an \<^verbatim>\<open>error\<close> event carrying a
  message. Credentials are taken as present for both configured apps.
\<close>

record world =
  listIndexes :: "string \<Rightarrow> string + algolia_index list"
  browseAll :: "string \<Rightarrow> string \<Rightarrow> string + hit list"

text \<open>What a file of \<^verbatim>\<open>./dist/indices\<close> holds: records written by \<^verbatim>\<open>firost.writeJson\<close>, or the
  plain text written by \<^verbatim>\<open>firost.write\<close>.\<close>

datatype artifact =
    Records "hit list"
  | RawText string

text \<open>
  The files under \<^verbatim>\<open>./dist\<close> by path (\<^verbatim>\<open>firost.isFile\<close>, \<^verbatim>\<open>readJson\<close>, \<^verbatim>\<open>writeJson\<close>, \<^verbatim>\<open>write\<close>;
  a write always succeeds in the model, and a file of \<^verbatim>\<open>./dist/apps\<close> holds a list of
  summaries), and logs of what was done: the remote list calls, the remote browse calls
  \<open>(app, index)\<close> and the paths written under \<^verbatim>\<open>./dist/indices\<close>.
\<close>

record disk =
  appFiles :: "string \<rightharpoonup> index_summary list"
  indexFiles :: "string \<rightharpoonup> artifact"
  listCalls :: "string list"
  browseCalls :: "(string \<times> string) list"
  written :: "string list"

section \<open>Index list fetcher: \<^verbatim>\<open>downloadIndexList\<close> (lines 44-68)\<close>

definition appListPath :: "string \<Rightarrow> string" where
  "appListPath appName = ''./dist/apps/'' @ appName @ ''.json''"

definition toSummary :: "algolia_index \<Rightarrow> index_summary" where
  "toSummary index =
     \<lparr> name = item_name index, recordCount = entries index, dataSize = item_dataSize index,
       fileSize = item_fileSize index, lastUpdate = updatedAt index \<rparr>"

text \<open>
  A cached file is returned as it is, with no remote call. Otherwise \<^verbatim>\<open>getClient\<close> reads
  \<^verbatim>\<open>this.configs[appName].client\<close>, a TypeError for an app that is not configured; then the
  remote list is fetched, mapped, filtered, written and returned.
\<close>

definition downloadIndexList ::
  "world \<Rightarrow> string \<Rightarrow> disk \<Rightarrow> (error + index_summary list) \<times> disk" where
  "downloadIndexList w appName s =
     (let filePath = appListPath appName in
      case appFiles s filePath of
        Some cached \<Rightarrow> (Inr cached, s)
      | None \<Rightarrow>
          if appName \<notin> set apps then (Inl (TypeError ''client''), s)
          else
            (let s1 = s\<lparr> listCalls := listCalls s @ [appName] \<rparr> in
             case listIndexes w appName of
               Inl msg \<Rightarrow> (Inl (RemoteError msg), s1)
             | Inr items \<Rightarrow>
                 (let indexData = filter (\<lambda>index. \<not> endsWith (name index) ''_tmp'')
                                    (map toSummary items)
                  in (Inr indexData, s1\<lparr> appFiles := (appFiles s1)(filePath \<mapsto> indexData) \<rparr>))))"

section \<open>Divergence detector: \<^verbatim>\<open>getIndicesWithDifferences\<close> (lines 121-148)\<close>

text \<open>\<^verbatim>\<open>result[key] = value\<close> on an object: an existing key keeps its place, a new one is
  appended.\<close>

fun setProp :: "string \<Rightarrow> 'v \<Rightarrow> (string \<times> 'v) list \<Rightarrow> (string \<times> 'v) list" where
  "setProp k v [] = [(k, v)]"
| "setProp k v (p # ps) = (if fst p = k then (k, v) # ps else p # setProp k v ps)"

text \<open>
  \<^verbatim>\<open>convertList\<close>: \<^verbatim>\<open>_.transform\<close> over the list, from the empty object. The sizes are
  numbers, and assigning a number to \<^verbatim>\<open>__proto__\<close> of a plain object runs the setter of
  \<^verbatim>\<open>Object.prototype\<close>, which ignores it: an index of that name adds no property.
\<close>

definition convertList :: "index_summary list \<Rightarrow> (string \<times> int) list" where
  "convertList list =
     foldl (\<lambda>result index.
              if name index = ''__proto__'' then result
              else setProp (name index) (dataSize index) result)
       [] list"

text \<open>The decimal text of a number, as a number used as a property key is written.\<close>

fun decimal :: "nat \<Rightarrow> string" where
  "decimal n =
     (if n < 10 then [''0123456789'' ! n]
      else decimal (n div 10) @ [''0123456789'' ! (n mod 10)])"

declare decimal.simps [simp del]

text \<open>
  A property name that is an array index: the decimal text, without leading zeros, of a
  number below \<open>2^32 - 1\<close>. \<^verbatim>\<open>Object.keys\<close> gives the array indices first, in ascending order,
  then the other names in the order they were added.
\<close>

definition arrayIndex :: "string \<Rightarrow> int option" where
  "arrayIndex s =
     (let n = foldl (\<lambda>acc c. 10 * acc + (of_char c - 48)) 0 s
      in if s \<noteq> [] \<and> list_all (\<lambda>c. CHR ''0'' \<le> c \<and> c \<le> CHR ''9'') s
            \<and> (s = ''0'' \<or> hd s \<noteq> CHR ''0'') \<and> n < 4294967295
         then Some n else None)"

definition ownEntries :: "(string \<times> 'v) list \<Rightarrow> (string \<times> 'v) list" where
  "ownEntries obj =
     map snd (sort_key fst
                (List.map_filter (\<lambda>p. map_option (\<lambda>n. (n, p)) (arrayIndex (fst p))) obj))
     @ filter (\<lambda>p. arrayIndex (fst p) = None) obj"

text \<open>
  lodash's \<^verbatim>\<open>isArrayLike\<close> on the converted list: its \<^verbatim>\<open>length\<close>, when an index of that name
  gives it one that \<^verbatim>\<open>isLength\<close> accepts (an integer from 0 to \<open>2^53 - 1\<close>).
\<close>

definition arrayLength :: "(string \<times> int) list \<Rightarrow> int option" where
  "arrayLength obj =
     (case map_of obj ''length'' of
        None \<Rightarrow> None
      | Some n \<Rightarrow> if 0 \<le> n \<and> n \<le> 9007199254740991 then Some n else None)"

text \<open>
  The second argument \<^verbatim>\<open>_.map\<close> passes to its callback, which the callback returns: the
  property name for an object, the position (a number) for an array-like collection.
\<close>

datatype key = Name string | Index nat

text \<open>\<^verbatim>\<open>_.compact\<close> on what the callback returned: \<^verbatim>\<open>null\<close>, the empty string and the number 0
  are falsy and go.\<close>

fun compact :: "key option list \<Rightarrow> key list" where
  "compact [] = []"
| "compact (None # xs) = compact xs"
| "compact (Some (Name n) # xs) = (if n = [] then compact xs else Name n # compact xs)"
| "compact (Some (Index i) # xs) = (if i = 0 then compact xs else Index i # compact xs)"

text \<open>
  The comparison of the two converted lists (lines 138-147). \<^verbatim>\<open>_.chain\<close> takes an object
  with an own property \<^verbatim>\<open>__wrapped__\<close> for one of its wrappers and fails on it with a
  TypeError, at once or when the chain is evaluated. \<^verbatim>\<open>_.map\<close> is lodash's \<^verbatim>\<open>baseMap\<close>: for an
  array-like mesos list it allocates \<^verbatim>\<open>Array(length)\<close>, a RangeError above \<open>2^32 - 1\<close>, and
  calls the callback with \<^verbatim>\<open>mesosList[index]\<close> and \<^verbatim>\<open>index\<close> for every position below the
  length; otherwise it calls it with every own entry. A missing property is \<^verbatim>\<open>undefined\<close>,
  which is \<^verbatim>\<open>!==\<close> any size; so is what a plain object inherits under a name kubernetes
  does not have.
\<close>

definition differingNames :: "index_summary list \<Rightarrow> index_summary list \<Rightarrow> error + key list" where
  "differingNames mesosIndices kubernetesIndices =
     (let mesosList = convertList mesosIndices;
          kubernetesList = convertList kubernetesIndices
      in if map_of mesosList ''__wrapped__'' \<noteq> None then Inl (TypeError ''__wrapped__'')
         else case arrayLength mesosList of
           Some len \<Rightarrow>
             if 4294967295 < len then Inl (RangeError ''Invalid array length'')
             else Inr (compact (map (\<lambda>index.
                                       if map_of kubernetesList (decimal index)
                                            \<noteq> map_of mesosList (decimal index)
                                       then Some (Index index) else None)
                                    [0..<nat len]))
         | None \<Rightarrow>
             Inr (compact (map (\<lambda>(name, size).
                                  if map_of kubernetesList name \<noteq> Some size
                                  then Some (Name name) else None)
                               (ownEntries mesosList))))"

definition getIndicesWithDifferences :: "world \<Rightarrow> disk \<Rightarrow> (error + key list) \<times> disk" where
  "getIndicesWithDifferences w s =
     (case downloadIndexList w ''mesos'' s of
        (Inl e, s1) \<Rightarrow> (Inl e, s1)
      | (Inr mesosIndices, s1) \<Rightarrow>
          (case downloadIndexList w ''kubernetes'' s1 of
             (Inl e, s2) \<Rightarrow> (Inl e, s2)
           | (Inr kubernetesIndices, s2) \<Rightarrow>
               (case differingNames mesosIndices kubernetesIndices of
                  Inl e \<Rightarrow> (Inl e, s2)
                | Inr indices \<Rightarrow> (Inr indices, s2))))"

section \<open>Record normalizer: the \<^verbatim>\<open>end\<close> handler of \<^verbatim>\<open>getRecordsFromIndex\<close> (lines 77-114)\<close>

text \<open>\<^verbatim>\<open>_.omit(record, [key])\<close> for a plain key: the object without its own property \<^verbatim>\<open>key\<close>.\<close>

definition omit :: "string \<Rightarrow> hit \<Rightarrow> hit" where
  "omit key record = filter (\<lambda>(k, v). k \<noteq> key) record"

text \<open>
  Reading the sort keys is lodash's \<^verbatim>\<open>basePropertyDeep\<close>: a path that is itself a key of the
  record is read as that key, otherwise it is split at the dots (\<^verbatim>\<open>castPath\<close>) and followed
  (\<^verbatim>\<open>baseGet\<close>). \<open>None\<close> is \<^verbatim>\<open>undefined\<close>. Following a path stops at \<^verbatim>\<open>null\<close> or \<^verbatim>\<open>undefined\<close>; of
  the property names the sort uses, only an object has any.
\<close>

fun getProp :: "jsval \<Rightarrow> string \<Rightarrow> jsval option" where
  "getProp (JObj props) k = map_of props k"
| "getProp _ k = None"

fun baseGet :: "jsval option \<Rightarrow> string list \<Rightarrow> jsval option" where
  "baseGet object [] = object"
| "baseGet None (k # ks) = None"
| "baseGet (Some JNull) (k # ks) = None"
| "baseGet (Some object) (k # ks) = baseGet (getProp object k) ks"

definition property :: "string \<Rightarrow> hit \<Rightarrow> jsval option" where
  "property path record =
     baseGet (Some (JObj record))
       (if map_of record path \<noteq> None then [path] else js_split CHR ''.'' path)"

text \<open>
  JavaScript's \<^verbatim>\<open>>\<close> and \<^verbatim>\<open><\<close>. Two strings are compared by their characters, a proper prefix
  first. Otherwise both operands are turned into numbers (\<^verbatim>\<open>null\<close> is 0, \<^verbatim>\<open>false\<close> 0, \<^verbatim>\<open>true\<close> 1)
  and compared; with \<^verbatim>\<open>undefined\<close> the answer is false. The number of a string (its numeric
  literal, else \<^verbatim>\<open>NaN\<close>) and the primitive of an array or object are not modelled: a
  comparison that needs one is answered false, JavaScript's answer whenever the number is
  \<^verbatim>\<open>NaN\<close>. The theorems on the order assume key values for which no such conversion happens.
\<close>

fun toNumber :: "jsval \<Rightarrow> int option" where
  "toNumber JNull = Some 0"
| "toNumber (JBool b) = Some (if b then 1 else 0)"
| "toNumber (JNum n) = Some n"
| "toNumber v = None"

fun js_gt :: "jsval option \<Rightarrow> jsval option \<Rightarrow> bool" where
  "js_gt (Some (JStr a)) (Some (JStr b)) = (b < a)"
| "js_gt (Some a) (Some b) =
     (case (toNumber a, toNumber b) of (Some m, Some n) \<Rightarrow> n < m | _ \<Rightarrow> False)"
| "js_gt _ _ = False"

fun js_lt :: "jsval option \<Rightarrow> jsval option \<Rightarrow> bool" where
  "js_lt (Some (JStr a)) (Some (JStr b)) = (a < b)"
| "js_lt (Some a) (Some b) =
     (case (toNumber a, toNumber b) of (Some m, Some n) \<Rightarrow> m < n | _ \<Rightarrow> False)"
| "js_lt _ _ = False"

text \<open>
  lodash's \<^verbatim>\<open>compareAscending\<close>, without its symbol and \<^verbatim>\<open>NaN\<close> flags (JSON has neither):
  \<^verbatim>\<open>undefined\<close> compares greater than everything else and \<^verbatim>\<open>null\<close> greater than every other
  defined value.
\<close>

definition compareAscending :: "jsval option \<Rightarrow> jsval option \<Rightarrow> int" where
  "compareAscending val other =
     (if val \<noteq> other then
        (let valIsDefined = (val \<noteq> None); valIsNull = (val = Some JNull);
             othIsDefined = (other \<noteq> None); othIsNull = (other = Some JNull)
         in if (\<not> othIsNull \<and> js_gt val other) \<or> (valIsNull \<and> othIsDefined) \<or> \<not> valIsDefined
            then 1
            else if (\<not> valIsNull \<and> js_lt val other) \<or> (othIsNull \<and> valIsDefined)
                    \<or> \<not> othIsDefined
            then - 1
            else 0)
      else 0)"

text \<open>An element being sorted (\<^verbatim>\<open>baseOrderBy\<close>): its key values, its position, itself.\<close>

record sort_entry =
  criteria :: "jsval option list"
  index :: nat
  item :: hit

text \<open>\<^verbatim>\<open>compareMultiple\<close> with no orders given: the first key that differs decides, then the
  position.\<close>

fun compareCriteria :: "jsval option list \<Rightarrow> jsval option list \<Rightarrow> int" where
  "compareCriteria [] othCriteria = 0"
| "compareCriteria (a # objCriteria) [] =
     (let result = compareAscending a None
      in if result \<noteq> 0 then result else compareCriteria objCriteria [])"
| "compareCriteria (a # objCriteria) (b # othCriteria) =
     (let result = compareAscending a b
      in if result \<noteq> 0 then result else compareCriteria objCriteria othCriteria)"

definition compareMultiple :: "sort_entry \<Rightarrow> sort_entry \<Rightarrow> int" where
  "compareMultiple object other =
     (let result = compareCriteria (criteria object) (criteria other)
      in if result \<noteq> 0 then result else int (index object) - int (index other))"

text \<open>
  \<^verbatim>\<open>Array.prototype.sort(comparer)\<close>. For a consistent comparator the result does not depend
  on the engine's algorithm; the model is insertion sort.
\<close>

fun insertBy :: "('a \<Rightarrow> 'a \<Rightarrow> int) \<Rightarrow> 'a \<Rightarrow> 'a list \<Rightarrow> 'a list" where
  "insertBy comparer x [] = [x]"
| "insertBy comparer x (y # ys) =
     (if comparer x y \<le> 0 then x # y # ys else y # insertBy comparer x ys)"

definition nativeSort :: "('a \<Rightarrow> 'a \<Rightarrow> int) \<Rightarrow> 'a list \<Rightarrow> 'a list" where
  "nativeSort comparer xs = foldr (insertBy comparer) xs []"

definition toEntries :: "string list \<Rightarrow> hit list \<Rightarrow> sort_entry list" where
  "toEntries paths collection =
     map (\<lambda>(i, r). \<lparr> criteria = map (\<lambda>p. property p r) paths, index = i, item = r \<rparr>)
       (enumerate 0 collection)"

text \<open>\<^verbatim>\<open>_.sortBy(collection, paths)\<close>.\<close>

definition sortBy :: "string list \<Rightarrow> hit list \<Rightarrow> hit list" where
  "sortBy paths collection = map item (nativeSort compareMultiple (toEntries paths collection))"

definition sortKeys :: "string list" where
  "sortKeys = [''url'', ''hierarchy.lvl0'', ''hierarchy.lvl1'', ''hierarchy.lvl2'',
     ''hierarchy.lvl3'', ''hierarchy.lvl4'', ''hierarchy.lvl5'', ''hierarchy.lvl6'',
     ''weight.position'']"

text \<open>Lines 93-106: the hits without their \<^verbatim>\<open>objectID\<close>, sorted.\<close>

definition sortedResults :: "hit list \<Rightarrow> hit list" where
  "sortedResults result = sortBy sortKeys (map (omit ''objectID'') result)"

text \<open>
  The promise of \<^verbatim>\<open>getRecordsFromIndex\<close>: resolved with the normalized hits on \<^verbatim>\<open>end\<close>, rejected
  on \<^verbatim>\<open>error\<close>. For an app that is not configured \<^verbatim>\<open>getClient\<close> throws inside the \<^verbatim>\<open>async\<close>
  executor, so the promise is never settled: \<open>None\<close>.
\<close>

definition getRecordsFromIndex :: "world \<Rightarrow> string \<Rightarrow> string \<Rightarrow> (string + hit list) option" where
  "getRecordsFromIndex w appName indexName =
     (if appName \<notin> set apps then None
      else Some (case browseAll w appName indexName of
                   Inl msg \<Rightarrow> Inl msg
                 | Inr result \<Rightarrow> Inr (sortedResults result)))"

section \<open>Download orchestrator: \<^verbatim>\<open>downloadIndicesWithDifferences\<close> (lines 155-196)\<close>

definition indexFilePath :: "string \<Rightarrow> string \<Rightarrow> string" where
  "indexFilePath indexName appName = ''./dist/indices/'' @ indexName @ ''-'' @ appName @ ''.json''"

text \<open>The body of the inner \<^verbatim>\<open>pMap\<close> (lines 168-188), for one index and one app.\<close>

definition downloadOne :: "world \<Rightarrow> string \<Rightarrow> string \<Rightarrow> disk \<Rightarrow> disk option" where
  "downloadOne w indexName appName s =
     (let filePath = indexFilePath indexName appName in
      if indexFiles s filePath \<noteq> None then Some s
      else
        (case getRecordsFromIndex w appName indexName of
           None \<Rightarrow> None
         | Some outcome \<Rightarrow>
             (let s1 = s\<lparr> browseCalls := browseCalls s @ [(appName, indexName)] \<rparr> in
              case outcome of
                Inr records \<Rightarrow>
                  Some (s1\<lparr> indexFiles := (indexFiles s1)(filePath \<mapsto> Records records),
                            written := written s1 @ [filePath] \<rparr>)
              | Inl msg \<Rightarrow>
                  Some (s1\<lparr> indexFiles := (indexFiles s1)(filePath \<mapsto> RawText (''ERROR: '' @ msg)),
                            written := written s1 @ [filePath] \<rparr>))))"

text \<open>\<^verbatim>\<open>pMap\<close> with \<^verbatim>\<open>concurrency: 1\<close>: one element after the other; \<open>None\<close> when a step never
  returns.\<close>

fun pMap :: "('a \<Rightarrow> disk \<Rightarrow> disk option) \<Rightarrow> 'a list \<Rightarrow> disk \<Rightarrow> disk option" where
  "pMap f [] s = Some s"
| "pMap f (x # xs) s = (case f x s of None \<Rightarrow> None | Some s' \<Rightarrow> pMap f xs s')"

text \<open>Lines 162-193.\<close>

definition downloadAll :: "world \<Rightarrow> string list \<Rightarrow> disk \<Rightarrow> disk option" where
  "downloadAll w indices s =
     pMap (\<lambda>indexName. pMap (\<lambda>appName. downloadOne w indexName appName) apps) indices s"

text \<open>The name as the template strings of the paths write it.\<close>

fun templateText :: "key \<Rightarrow> string" where
  "templateText (Name n) = n"
| "templateText (Index i) = decimal i"

definition downloadIndicesWithDifferences :: "world \<Rightarrow> disk \<Rightarrow> ((error + unit) \<times> disk) option" where
  "downloadIndicesWithDifferences w s =
     (case getIndicesWithDifferences w s of
        (Inl e, s1) \<Rightarrow> Some (Inl e, s1)
      | (Inr indices, s1) \<Rightarrow>
          (case downloadAll w (map templateText indices) s1 of
             None \<Rightarrow> None
           | Some s2 \<Rightarrow> Some (Inr (), s2)))"

section \<open>Content diff reporter: \<^verbatim>\<open>getDifferentIndices\<close> (lines 221-266)\<close>

text \<open>
  The reporter sees the files only through \<^verbatim>\<open>firost.glob\<close> and \<^verbatim>\<open>fs.statSync\<close>: a directory is
  a list of paths with their sizes in bytes. The glob \<^verbatim>\<open>./dist/indices/*.json\<close> gives the
  paths directly in that directory that end in \<^verbatim>\<open>.json\<close>, in the order of the listing;
  names that start with a dot are taken as listed like the others.
\<close>

type_synonym dir = "(string \<times> nat) list"

definition matchesGlob :: "string \<Rightarrow> bool" where
  "matchesGlob p =
     (take 15 p = ''./dist/indices/'' \<and> endsWith (drop 15 p) ''.json''
      \<and> CHR ''/'' \<notin> set (drop 15 p))"

definition glob :: "dir \<Rightarrow> string list" where
  "glob d = filter matchesGlob (map fst d)"

text \<open>Lines 226-235: the app (\<^verbatim>\<open>type\<close>) and the index name read back from a path.\<close>

definition parsePath :: "string \<Rightarrow> string \<times> string" where
  "parsePath filepath =
     (let split = js_split CHR ''-'' (basename filepath ''.json'')
      in (last split, js_join ''-'' (butlast split)))"

text \<open>
  Lines 237-242: the names by type, as \<open>(kubernetes, mesos)\<close>. Any other type has no array in
  the accumulator, and \<^verbatim>\<open>push\<close> on \<^verbatim>\<open>undefined\<close> is a TypeError.
\<close>

fun groupByType ::
  "(string \<times> string) list \<Rightarrow> string list \<times> string list \<Rightarrow> error + string list \<times> string list" where
  "groupByType [] result = Inr result"
| "groupByType ((type, indexName) # rest) (kubernetes, mesos) =
     (if type = ''kubernetes'' then groupByType rest (kubernetes @ [indexName], mesos)
      else if type = ''mesos'' then groupByType rest (kubernetes, mesos @ [indexName])
      else Inl (TypeError ''push''))"

text \<open>
  \<^verbatim>\<open>fs.statSync\<close> returns a new \<^verbatim>\<open>Stats\<close> object at each call. Objects live in a heap, a list
  addressed by position, and a JavaScript value holding an object is its address: \<^verbatim>\<open>===\<close> on
  two objects compares addresses.
\<close>

record Stats =
  sizeBytes :: nat

type_synonym heap = "Stats list"

definition statSync :: "dir \<Rightarrow> string \<Rightarrow> heap \<Rightarrow> error + nat \<times> heap" where
  "statSync d path h =
     (case map_of d path of
        None \<Rightarrow> Inl (ENOENT path)
      | Some n \<Rightarrow> Inr (length h, h @ [\<lparr> sizeBytes = n \<rparr>]))"

text \<open>Lines 246-260: the \<^verbatim>\<open>_.each\<close> over the kubernetes names, pushing onto \<^verbatim>\<open>results\<close>.\<close>

fun eachKubernetes ::
  "dir \<Rightarrow> string list \<Rightarrow> string list \<times> heap \<Rightarrow> error + string list \<times> heap" where
  "eachKubernetes d [] acc = Inr acc"
| "eachKubernetes d (indexName # rest) (results, h) =
     (if indexName = [] then eachKubernetes d rest (results, h)
      else
        (case statSync d (indexFilePath indexName ''kubernetes'') h of
           Inl e \<Rightarrow> Inl e
         | Inr (kubeSize, h1) \<Rightarrow>
             (case statSync d (indexFilePath indexName ''mesos'') h1 of
                Inl e \<Rightarrow> Inl e
              | Inr (mesosSize, h2) \<Rightarrow>
                  if sizeBytes (h2 ! kubeSize) < 100 \<or> kubeSize = mesosSize
                  then eachKubernetes d rest (results, h2)
                  else eachKubernetes d rest (results @ [indexName], h2))))"

definition getDifferentIndices :: "dir \<Rightarrow> error + string list" where
  "getDifferentIndices d =
     (case groupByType (map parsePath (glob d)) ([], []) of
        Inl e \<Rightarrow> Inl e
      | Inr (kubernetes, mesos) \<Rightarrow>
          (case eachKubernetes d kubernetes ([], []) of
             Inl e \<Rightarrow> Inl e
           | Inr (results, h) \<Rightarrow> Inr results))"

section \<open>Notions used in the statements and proofs\<close>

text \<open>What lines 176-183 write for a pair that is not cached: the records, or the marker.\<close>

definition artifactOf :: "world \<Rightarrow> string \<Rightarrow> string \<Rightarrow> artifact" where
  "artifactOf w appName indexName =
     (case browseAll w appName indexName of
        Inl msg \<Rightarrow> RawText (''ERROR: '' @ msg)
      | Inr result \<Rightarrow> Records (sortedResults result))"

text \<open>The pairs in the order the two nested \<^verbatim>\<open>pMap\<close> calls visit them.\<close>

definition pairsOf :: "string list \<Rightarrow> (string \<times> string) list" where
  "pairsOf indices = concat (map (\<lambda>indexName. map (\<lambda>appName. (indexName, appName)) apps) indices)"

text \<open>The index names of the listed kubernetes artifacts, in the order of the listing.\<close>

definition kubernetesNames :: "dir \<Rightarrow> string list" where
  "kubernetesNames d = map snd (filter (\<lambda>p. fst p = ''kubernetes'') (map parsePath (glob d)))"

text \<open>The key tuple of a record: what \<^verbatim>\<open>_.sortBy\<close> reads at the nine paths.\<close>

definition keysOf :: "hit \<Rightarrow> jsval option list" where
  "keysOf r = map (\<lambda>p. property p r) sortKeys"

text \<open>
  Two key values that JavaScript compares without coercion: each is missing, \<^verbatim>\<open>null\<close>, a
  string or a number, and they are not a string and a number. A list of records has uniform
  keys when this holds at every key position of every two of its records.
\<close>

fun comparable :: "jsval option \<Rightarrow> jsval option \<Rightarrow> bool" where
  "comparable (Some (JStr a)) (Some (JNum b)) = False"
| "comparable (Some (JNum a)) (Some (JStr b)) = False"
| "comparable (Some (JBool a)) other = False"
| "comparable (Some (JArr a)) other = False"
| "comparable (Some (JObj a)) other = False"
| "comparable val (Some (JBool b)) = False"
| "comparable val (Some (JArr b)) = False"
| "comparable val (Some (JObj b)) = False"
| "comparable val other = True"

definition uniformKeys :: "hit list \<Rightarrow> bool" where
  "uniformKeys rs = list_all (\<lambda>r. list_all (\<lambda>r'. list_all2 comparable (keysOf r) (keysOf r')) rs) rs"

text \<open>Missing values rank last, \<^verbatim>\<open>null\<close> before them, every other value first.\<close>

fun keyRank :: "jsval option \<Rightarrow> nat" where
  "keyRank None = 2"
| "keyRank (Some JNull) = 1"
| "keyRank (Some v) = 0"

text \<open>A set of sort entries whose key tuples are comparable position by position.\<close>

definition keyed :: "sort_entry set \<Rightarrow> bool" where
  "keyed S = (\<forall>a \<in> S. \<forall>b \<in> S. list_all2 comparable (criteria a) (criteria b))"

section \<open>Sample inputs\<close>

definition emptyDisk :: disk where
  "emptyDisk = \<lparr> appFiles = Map.empty, indexFiles = Map.empty, listCalls = [], browseCalls = [],
                 written = [] \<rparr>"

definition sampleItems :: "algolia_index list" where
  "sampleItems =
     [\<lparr> item_name = ''docs'', entries = 3, item_dataSize = 100, item_fileSize = 120,
        updatedAt = ''2019-08-01'' \<rparr>,
      \<lparr> item_name = ''docs_tmp'', entries = 3, item_dataSize = 90, item_fileSize = 110,
        updatedAt = ''2019-08-02'' \<rparr>]"

definition sampleList :: "index_summary list" where
  "sampleList =
     [\<lparr> name = ''docs'', recordCount = 3, dataSize = 100, fileSize = 120,
        lastUpdate = ''2019-08-01'' \<rparr>]"

definition sampleWorld :: world where
  "sampleWorld =
     \<lparr> listIndexes = (\<lambda>appName. Inr sampleItems),
       browseAll = (\<lambda>appName indexName. Inl ''down'') \<rparr>"


definition hitX :: hit where
  "hitX = [(''objectID'', JStr ''1001''), (''url'', JStr ''/docs/install''), (''content'', JStr ''x'')]"

definition hitY :: hit where
  "hitY = [(''objectID'', JStr ''2002''), (''url'', JStr ''/docs/install''), (''content'', JStr ''y'')]"

definition cachedDisk :: disk where
  "cachedDisk = emptyDisk\<lparr> indexFiles := [indexFilePath ''docs'' ''kubernetes'' \<mapsto> RawText ''old''] \<rparr>"

definition flakyWorld :: world where
  "flakyWorld =
     \<lparr> listIndexes = (\<lambda>appName. Inr sampleItems),
       browseAll = (\<lambda>appName indexName.
          if appName = ''mesos'' \<and> indexName = ''docs'' then Inl ''down'' else Inr [hitX]) \<rparr>"

definition sampleHits :: "hit list" where
  "sampleHits =
     [[(''objectID'', JStr ''7''), (''content'', JStr ''no url'')],
      [(''objectID'', JStr ''3''), (''url'', JStr ''/b'')],
      [(''objectID'', JStr ''9''), (''url'', JNull)],
      [(''objectID'', JStr ''1''), (''url'', JStr ''/a''), (''hierarchy'', JObj [(''lvl0'', JStr ''z'')])],
      [(''objectID'', JStr ''5''), (''url'', JStr ''/a''), (''hierarchy'', JObj [(''lvl0'', JStr ''c'')]),
       (''weight'', JObj [(''position'', JNum 2)])],
      [(''objectID'', JStr ''6''), (''url'', JStr ''/a''), (''hierarchy'', JObj [(''lvl0'', JStr ''c'')]),
       (''weight'', JObj [(''position'', JNum 1)])]]"

section \<open>Strings and paths\<close>

lemma js_split_not_Nil: "js_split c s \<noteq> []"
  by (induction s) (auto split: list.splits)

lemma js_split_no_sep: "c \<notin> set t \<Longrightarrow> js_split c t = [t]"
  by (induction t) auto

lemma js_split_append_sep:
  "c \<notin> set t \<Longrightarrow> js_split c (s @ c # t) = js_split c s @ [t]"
proof (induction s)
  case Nil
  then show ?case by (simp add: js_split_no_sep)
next
  case (Cons x s)
  then show ?case
    by (cases "js_split c s") (auto simp: js_split_not_Nil)
qed

lemma js_join_Cons_Cons: "js_join sep ((x # w) # ws) = x # js_join sep (w # ws)"
  by (cases ws) auto

lemma js_join_split: "js_join [c] (js_split c s) = s"
proof (induction s)
  case Nil
  then show ?case by simp
next
  case (Cons x s)
  obtain w ws where ws: "js_split c s = w # ws"
    using js_split_not_Nil by (cases "js_split c s") auto
  show ?case
  proof (cases "x = c")
    case True
    with Cons ws show ?thesis by simp
  next
    case False
    with Cons ws show ?thesis by (simp add: js_join_Cons_Cons)
  qed
qed

lemma basename_json:
  assumes "CHR ''/'' \<notin> set b" and "b \<noteq> []"
  shows "basename (''./dist/indices/'' @ b @ ''.json'') ''.json'' = b"
proof -
  have tw: "takeWhile (\<lambda>c. c \<noteq> CHR ''/'') (rev b @ ''/secidni/tsid/.'') = rev b"
    using assms(1) by (induction b rule: rev_induct) auto
  have "rev (''./dist/indices/'' @ b @ ''.json'') = ''nosj.'' @ rev b @ ''/secidni/tsid/.''"
    by simp
  then show ?thesis
    using assms(2) by (simp add: basename_def Let_def tw endsWith_def)
qed

lemma parsePath_indexFilePath:
  assumes "CHR ''/'' \<notin> set indexName" and "CHR ''/'' \<notin> set appName"
      and "CHR ''-'' \<notin> set appName"
  shows "parsePath (indexFilePath indexName appName) = (appName, indexName)"
proof -
  have b: "basename (indexFilePath indexName appName) ''.json'' = indexName @ CHR ''-'' # appName"
    using basename_json [of "indexName @ ''-'' @ appName"] assms
    by (simp add: indexFilePath_def)
  show ?thesis
    using assms(3)
    by (simp add: parsePath_def b js_split_append_sep js_join_split [of "CHR ''-''", simplified])
qed

subsection \<open>The file name of an artifact read back\<close>

text \<open>
  C10. For every index name that contains no slash (it may contain the delimiter \<^verbatim>\<open>-\<close>) and
  for both apps, the reporter reads the pair back from the path the orchestrator writes to:
  the last segment of the basename split at \<^verbatim>\<open>-\<close> is the app and the rest, joined with
  \<^verbatim>\<open>-\<close>, is the index name.
\<close>

theorem parsePath_roundtrip:
  assumes "CHR ''/'' \<notin> set indexName" and "appName \<in> set apps"
  shows "parsePath (indexFilePath indexName appName) = (appName, indexName)"
proof -
  from assms(2) have "CHR ''/'' \<notin> set appName" and "CHR ''-'' \<notin> set appName"
    by (auto simp: apps_def)
  with assms(1) show ?thesis by (rule parsePath_indexFilePath)
qed

theorem parsePath_roundtrip_witness:
  "CHR ''/'' \<notin> set ''react-native'' \<and> ''kubernetes'' \<in> set apps
   \<and> parsePath (indexFilePath ''react-native'' ''kubernetes'') = (''kubernetes'', ''react-native'')"
  using parsePath_roundtrip [of "''react-native''" "''kubernetes''"]
  by (simp add: apps_def)

text \<open>
  With a slash in the index name the file lies in a subdirectory, and \<^verbatim>\<open>path.basename\<close> keeps
  only what follows the last slash: the index name read back is not the one written.
\<close>

theorem parsePath_slash_counterexample:
  "parsePath (indexFilePath ''a/b'' ''mesos'') = (''mesos'', ''b'')
   \<and> parsePath (indexFilePath ''a/b'' ''mesos'') \<noteq> (''mesos'', ''a/b'')"
  by code_simp

section \<open>Index list fetcher\<close>

lemma downloadIndexList_cached:
  "appFiles s (appListPath appName) = Some cached \<Longrightarrow>
   downloadIndexList w appName s = (Inr cached, s)"
  by (simp add: downloadIndexList_def)

lemma downloadIndexList_fresh:
  assumes "appFiles s (appListPath appName) = None"
      and "downloadIndexList w appName s = (Inr indexData, s1)"
  shows "\<exists>items. listIndexes w appName = Inr items
           \<and> indexData = filter (\<lambda>index. \<not> endsWith (name index) ''_tmp'') (map toSummary items)
           \<and> s1 = s\<lparr> listCalls := listCalls s @ [appName],
                      appFiles := (appFiles s)(appListPath appName \<mapsto> indexData) \<rparr>"
  using assms
  by (auto simp: downloadIndexList_def Let_def split: if_splits sum.splits)

lemma sample_first_call:
  "downloadIndexList sampleWorld ''mesos'' emptyDisk =
     (Inr sampleList,
      emptyDisk\<lparr> listCalls := [''mesos''], appFiles := [appListPath ''mesos'' \<mapsto> sampleList] \<rparr>)"
  by (simp add: downloadIndexList_def emptyDisk_def sampleWorld_def sampleItems_def sampleList_def
      apps_def toSummary_def endsWith_def Let_def)



text \<open>
  C7. No list returned by \<^verbatim>\<open>downloadIndexList\<close> holds a name ending in \<^verbatim>\<open>_tmp\<close>: neither the
  list of a fresh fetch, nor the list a later call reads from the cache that fetch wrote.
\<close>

theorem downloadIndexList_no_tmp:
  assumes "appFiles s (appListPath appName) = None"
      and "downloadIndexList w appName s = (Inr indexData, s1)"
      and "downloadIndexList w' appName s1 = (Inr again, s2)"
  shows "(\<forall>index\<in>set indexData. \<not> endsWith (name index) ''_tmp'')
       \<and> (\<forall>index\<in>set again. \<not> endsWith (name index) ''_tmp'')"
proof -
  from downloadIndexList_fresh [OF assms(1,2)] obtain items where
    d: "indexData = filter (\<lambda>index. \<not> endsWith (name index) ''_tmp'') (map toSummary items)"
    and s1: "s1 = s\<lparr> listCalls := listCalls s @ [appName],
                     appFiles := (appFiles s)(appListPath appName \<mapsto> indexData) \<rparr>"
    by blast
  from s1 have "appFiles s1 (appListPath appName) = Some indexData" by simp
  from downloadIndexList_cached [OF this, of w'] assms(3) have "again = indexData" by simp
  with d show ?thesis by simp
qed

theorem downloadIndexList_no_tmp_witness:
  "appFiles emptyDisk (appListPath ''mesos'') = None
   \<and> downloadIndexList sampleWorld ''mesos'' emptyDisk =
       (Inr sampleList,
        emptyDisk\<lparr> listCalls := [''mesos''], appFiles := [appListPath ''mesos'' \<mapsto> sampleList] \<rparr>)
   \<and> endsWith (item_name (sampleItems ! 1)) ''_tmp''
   \<and> list_all (\<lambda>index. \<not> endsWith (name index) ''_tmp'') sampleList"
proof -
  have h1: "appFiles emptyDisk (appListPath ''mesos'') = None"
    by (simp add: emptyDisk_def)
  have h3: "downloadIndexList sampleWorld ''mesos''
        (emptyDisk\<lparr> listCalls := [''mesos''], appFiles := [appListPath ''mesos'' \<mapsto> sampleList] \<rparr>) =
       (Inr sampleList,
        emptyDisk\<lparr> listCalls := [''mesos''], appFiles := [appListPath ''mesos'' \<mapsto> sampleList] \<rparr>)"
    by (rule downloadIndexList_cached) simp
  have "endsWith (item_name (sampleItems ! 1)) ''_tmp''"
    by (simp add: sampleItems_def endsWith_def)
  with downloadIndexList_no_tmp [OF h1 sample_first_call h3] h1 sample_first_call
  show ?thesis by (simp add: list_all_iff)
qed

section \<open>Divergence detector\<close>

lemma set_compact:
  "set (compact ys) = {k. Some k \<in> set ys \<and> k \<noteq> Name [] \<and> k \<noteq> Index 0}"
  by (induction ys rule: compact.induct) auto





lemma map_of_setProp: "map_of (setProp k v ps) = (map_of ps)(k \<mapsto> v)"
  by (induction ps) (auto simp: fun_eq_iff)



lemma map_of_foldl_setProp:
  "map_of (foldl (\<lambda>result x. if skip x then result else setProp (f x) (g x) result) acc xs) =
   foldl (\<lambda>m x. if skip x then m else m(f x \<mapsto> g x)) (map_of acc) xs"
  by (induction xs arbitrary: acc) (auto simp: map_of_setProp)

lemma map_of_convertList:
  "map_of (convertList xs) =
   foldl (\<lambda>m x. if name x = ''__proto__'' then m else m(name x \<mapsto> dataSize x)) Map.empty xs"
  by (simp add: convertList_def map_of_foldl_setProp)

lemma dom_foldl_upd:
  "dom (foldl (\<lambda>m x. if skip x then m else m(f x \<mapsto> g x)) m0 xs) =
   dom m0 \<union> f ` {x \<in> set xs. \<not> skip x}"
  by (induction xs arbitrary: m0) auto

lemma dom_convertList:
  "dom (map_of (convertList xs)) = name ` set xs - {''__proto__''}"
  by (auto simp: map_of_convertList dom_foldl_upd)

lemma arrayLength_no_length:
  "''length'' \<notin> name ` set xs \<Longrightarrow> arrayLength (convertList xs) = None"
  using dom_convertList [of xs] by (auto simp: arrayLength_def split: option.splits)




section \<open>Record normalizer: the records and their identifiers\<close>

lemma mset_insertBy: "mset (insertBy comparer x ys) = add_mset x (mset ys)"
  by (induction ys) auto

lemma mset_nativeSort: "mset (nativeSort comparer xs) = mset xs"
  by (induction xs) (auto simp: nativeSort_def mset_insertBy)

lemma map_item_entries:
  "map item (map (\<lambda>(i, r). \<lparr> criteria = map (\<lambda>p. property p r) paths, index = i, item = r \<rparr>)
              (enumerate n collection)) = collection"
  by (induction collection arbitrary: n) auto

lemma map_item_toEntries: "map item (toEntries paths collection) = collection"
  unfolding toEntries_def by (rule map_item_entries)

lemma mset_sortBy: "mset (sortBy paths collection) = mset collection"
proof -
  have "mset (sortBy paths collection) = image_mset item (mset (toEntries paths collection))"
    by (simp add: sortBy_def mset_nativeSort)
  also have "\<dots> = mset (map item (toEntries paths collection))" by simp
  finally show ?thesis by (simp only: map_item_toEntries)
qed

lemma mset_sortedResults: "mset (sortedResults result) = mset (map (omit ''objectID'') result)"
  by (simp only: sortedResults_def mset_sortBy)

lemma map_of_omit: "map_of (omit key r) k = (if k = key then None else map_of r k)"
  by (induction r) (auto simp: omit_def)

text \<open>
  C8. No record of the normalized output has an \<^verbatim>\<open>objectID\<close>; the output holds exactly the
  input records without that field (as a multiset: only the order changes), and removing
  the field leaves every other field of a record as it was.
\<close>

theorem sortedResults_erases_objectID:
  "(\<forall>r \<in> set (sortedResults result). map_of r ''objectID'' = None)
   \<and> mset (sortedResults result) = mset (map (omit ''objectID'') result)
   \<and> (\<forall>r k. k \<noteq> ''objectID'' \<longrightarrow> map_of (omit ''objectID'' r) k = map_of r k)"
proof -
  have "set (sortedResults result) = omit ''objectID'' ` set result"
    using mset_sortedResults [of result, THEN arg_cong, of set_mset] by simp
  then show ?thesis
    by (auto simp: mset_sortedResults map_of_omit)
qed

theorem sortedResults_erases_objectID_witness:
  "sortedResults [hitX] = [[(''url'', JStr ''/docs/install''), (''content'', JStr ''x'')]]
   \<and> map_of hitX ''objectID'' = Some (JStr ''1001'')
   \<and> map_of (hd (sortedResults [hitX])) ''objectID'' = None
   \<and> map_of (hd (sortedResults [hitX])) ''content'' = map_of hitX ''content''"
proof -
  have n: "sortedResults [hitX] = [[(''url'', JStr ''/docs/install''), (''content'', JStr ''x'')]]"
    by code_simp
  from sortedResults_erases_objectID [of "[hitX]"]
  have "\<forall>r \<in> set (sortedResults [hitX]). map_of r ''objectID'' = None" by blast
  with n show ?thesis by (simp add: hitX_def)
qed

text \<open>
  C2. Two records with the same sort keys and different content come out in the order they
  came in: the two arrival orders of the same two records give two different outputs. The
  comment above \<^verbatim>\<open>getRecordsFromIndex\<close> promises that "objects are always returned in the same
  order".
\<close>

theorem arrival_order_decides_ties:
  "sortedResults [hitX, hitY] =
     [[(''url'', JStr ''/docs/install''), (''content'', JStr ''x'')],
      [(''url'', JStr ''/docs/install''), (''content'', JStr ''y'')]]
   \<and> sortedResults [hitY, hitX] =
     [[(''url'', JStr ''/docs/install''), (''content'', JStr ''y'')],
      [(''url'', JStr ''/docs/install''), (''content'', JStr ''x'')]]"
  by code_simp

section \<open>Content diff reporter\<close>

text \<open>
  C1. An index whose two artifacts have the same size of 500 bytes is still reported:
  \<^verbatim>\<open>kubeSize === mesosSize\<close> compares the two \<^verbatim>\<open>Stats\<close> objects, which are never the same
  object, instead of their sizes.
\<close>

theorem getDifferentIndices_equal_sizes_reported:
  "getDifferentIndices
     [(''./dist/indices/docs-kubernetes.json'', 500), (''./dist/indices/docs-mesos.json'', 500)]
   = Inr [''docs'']"
  by code_simp

text \<open>
  For the two artifacts of one index, of any sizes: the index is reported exactly when the
  kubernetes artifact has 100 bytes or more, whatever the size of the mesos artifact.
\<close>

lemma getDifferentIndices_docs_pair:
  "getDifferentIndices
     [(''./dist/indices/docs-kubernetes.json'', k), (''./dist/indices/docs-mesos.json'', m)]
   = Inr (if k < 100 then [] else [''docs''])"
proof -
  have g: "glob [(''./dist/indices/docs-kubernetes.json'', k), (''./dist/indices/docs-mesos.json'', m)]
      = [''./dist/indices/docs-kubernetes.json'', ''./dist/indices/docs-mesos.json'']"
    by (simp add: glob_def matchesGlob_def endsWith_def)
  have p: "parsePath ''./dist/indices/docs-kubernetes.json'' = (''kubernetes'', ''docs'')"
    "parsePath ''./dist/indices/docs-mesos.json'' = (''mesos'', ''docs'')"
    by code_simp+
  show ?thesis
    by (simp add: getDifferentIndices_def g p statSync_def indexFilePath_def)
qed

lemma statSync_fresh: "statSync d p h = Inr (a, h') \<Longrightarrow> a = length h \<and> length h' = Suc (length h)"
  by (auto simp: statSync_def split: option.splits)

lemma matchesGlob_indexFilePath:
  assumes "CHR ''/'' \<notin> set indexName" and "CHR ''/'' \<notin> set appName"
  shows "matchesGlob (indexFilePath indexName appName)"
  using assms by (simp add: matchesGlob_def indexFilePath_def endsWith_def)

lemma groupByType_names:
  "groupByType ps (k, m) = Inr (k', m') \<Longrightarrow>
   k' = k @ map snd (filter (\<lambda>p. fst p = ''kubernetes'') ps)"
proof (induction ps "(k, m)" arbitrary: k m rule: groupByType.induct)
  case (1 result)
  then show ?case by simp
next
  case (2 type indexName rest kubernetes mesos)
  then show ?case by (auto split: if_splits)
qed

lemma snd_filter_fst:
  "(n \<in> set (map snd (filter (\<lambda>p. fst p = t) (map f xs)))) = (\<exists>q \<in> set xs. f q = (t, n))"
  by (induction xs) (auto simp: prod_eq_iff)

lemma set_kubernetesNames:
  "(n \<in> set (kubernetesNames d)) = (\<exists>q \<in> set (glob d). parsePath q = (''kubernetes'', n))"
  unfolding kubernetesNames_def by (rule snd_filter_fst)

lemma js_join_snoc: "xs \<noteq> [] \<Longrightarrow> js_join sep (xs @ [x]) = js_join sep xs @ sep @ x"
  by (induction sep xs rule: js_join.induct) auto

lemma endsWith_split: "endsWith s t \<Longrightarrow> s = take (length s - length t) s @ t"
  unfolding endsWith_def by (metis append_take_drop_id)

lemma glob_kubernetes_path:
  assumes "q \<in> set (glob d)" and "parsePath q = (''kubernetes'', n)" and "n \<noteq> []"
  shows "q = indexFilePath n ''kubernetes''"
proof -
  define X where "X = drop 15 q"
  define Y where "Y = take (length X - length ''.json'') X"
  from assms(1) have m: "matchesGlob q" by (simp add: glob_def)
  then have q: "q = ''./dist/indices/'' @ X"
    unfolding X_def matchesGlob_def by (metis append_take_drop_id)
  from m have "endsWith X ''.json''" and slash: "CHR ''/'' \<notin> set X"
    unfolding X_def matchesGlob_def by simp_all
  from endsWith_split [OF this(1)] have X: "X = Y @ ''.json''"
    unfolding Y_def .
  show ?thesis
  proof (cases "Y = []")
    case True
    with q X have "q = ''./dist/indices/.json''" by simp
    then have "parsePath q = (''.json'', [])" by (simp only:) code_simp
    with assms(2) show ?thesis by simp
  next
    case False
    from slash X have "CHR ''/'' \<notin> set Y" by simp
    from basename_json [OF this False] q X have b: "basename q ''.json'' = Y" by simp
    define ws where "ws = js_split CHR ''-'' Y"
    have ne: "ws \<noteq> []" unfolding ws_def by (rule js_split_not_Nil)
    from assms(2) b have l: "last ws = ''kubernetes''" and j: "n = js_join ''-'' (butlast ws)"
      by (simp_all add: parsePath_def ws_def Let_def)
    from j assms(3) have bne: "butlast ws \<noteq> []" by auto
    have "Y = js_join ''-'' ws" unfolding ws_def by (simp add: js_join_split)
    also have "ws = butlast ws @ [last ws]" using ne by simp
    also have "js_join ''-'' (butlast ws @ [last ws]) = n @ ''-'' @ ''kubernetes''"
      using js_join_snoc [OF bne] j l by simp
    finally show ?thesis using q X by (simp add: indexFilePath_def)
  qed
qed

lemma groupByType_ok:
  "\<forall>p \<in> set ps. fst p = ''kubernetes'' \<or> fst p = ''mesos'' \<Longrightarrow>
   \<exists>r. groupByType ps acc = Inr r"
  by (induction ps acc rule: groupByType.induct) auto

lemma groupByType_fail:
  "\<not> (\<forall>p \<in> set ps. fst p = ''kubernetes'' \<or> fst p = ''mesos'') \<Longrightarrow>
   groupByType ps acc = Inl (TypeError ''push'')"
  by (induction ps acc rule: groupByType.induct) auto

lemma eachKubernetes_first_missing:
  assumes "\<forall>b \<in> set before. b = [] \<or> (map_of d (indexFilePath b ''kubernetes'') \<noteq> None
                                   \<and> map_of d (indexFilePath b ''mesos'') \<noteq> None)"
      and "n \<noteq> []" and "map_of d (indexFilePath n ''kubernetes'') \<noteq> None"
      and "map_of d (indexFilePath n ''mesos'') = None"
  shows "eachKubernetes d (before @ n # after) (results, h) = Inl (ENOENT (indexFilePath n ''mesos''))"
  using assms(1)
proof (induction before arbitrary: results h)
  case Nil
  with assms(2,3,4) show ?case by (auto simp: statSync_def)
next
  case (Cons b before)
  then have IH: "\<And>results h. eachKubernetes d (before @ n # after) (results, h)
      = Inl (ENOENT (indexFilePath n ''mesos''))"
    by simp
  from Cons.prems consider "b = []"
    | k m where "b \<noteq> []" "map_of d (indexFilePath b ''kubernetes'') = Some k"
        "map_of d (indexFilePath b ''mesos'') = Some m"
    by auto
  then show ?case
  proof cases
    case 1
    with IH show ?thesis by simp
  next
    case 2
    with IH show ?thesis by (simp add: statSync_def)
  qed
qed

text \<open>
  C9. When the directory holds the kubernetes artifact of an index name that is not empty
  and has no slash, and no mesos artifact of that name, \<^verbatim>\<open>getDifferentIndices\<close> fails and
  gives no report. When every listed file is an artifact of one of the two apps, the error
  is the one \<^verbatim>\<open>fs.statSync\<close> raises for the first kubernetes artifact, in the order of the
  listing, whose index name is not empty and whose mesos artifact does not exist; otherwise
  the grouping has failed before, with a TypeError.
\<close>

theorem getDifferentIndices_missing_mesos:
  assumes "indexName \<noteq> []" and "CHR ''/'' \<notin> set indexName"
      and "indexFilePath indexName ''kubernetes'' \<in> fst ` set d"
      and "map_of d (indexFilePath indexName ''mesos'') = None"
  shows "if \<forall>q \<in> set (glob d). fst (parsePath q) \<in> {''kubernetes'', ''mesos''}
         then \<exists>before n after.
                kubernetesNames d = before @ n # after
                \<and> (\<forall>b \<in> set before. b = [] \<or> map_of d (indexFilePath b ''mesos'') \<noteq> None)
                \<and> n \<noteq> [] \<and> map_of d (indexFilePath n ''mesos'') = None
                \<and> getDifferentIndices d = Inl (ENOENT (indexFilePath n ''mesos''))
         else getDifferentIndices d = Inl (TypeError ''push'')"
proof (cases "\<forall>q \<in> set (glob d). fst (parsePath q) \<in> {''kubernetes'', ''mesos''}")
  case False
  then have "\<not> (\<forall>p \<in> set (map parsePath (glob d)). fst p = ''kubernetes'' \<or> fst p = ''mesos'')"
    by auto
  from groupByType_fail [OF this] False show ?thesis
    by (simp add: getDifferentIndices_def)
next
  case True
  then have "\<forall>p \<in> set (map parsePath (glob d)). fst p = ''kubernetes'' \<or> fst p = ''mesos''"
    by auto
  from groupByType_ok [OF this] obtain k m where
    g: "groupByType (map parsePath (glob d)) ([], []) = Inr (k, m)"
    by fastforce
  from groupByType_names [OF g] have ks: "k = kubernetesNames d"
    by (simp add: kubernetesNames_def)
  have present: "map_of d (indexFilePath n ''kubernetes'') \<noteq> None"
    if "n \<in> set k" and ne: "n \<noteq> []" for n
  proof -
    from that ks have "n \<in> set (kubernetesNames d)" by simp
    then obtain q where q: "q \<in> set (glob d)" and p: "parsePath q = (''kubernetes'', n)"
      unfolding set_kubernetesNames by (rule bexE)
    from glob_kubernetes_path [OF q p ne] q have "indexFilePath n ''kubernetes'' \<in> fst ` set d"
      by (auto simp: glob_def)
    then show ?thesis by (simp add: map_of_eq_None_iff)
  qed
  have listed: "indexFilePath indexName ''kubernetes'' \<in> set (glob d)"
    using assms(2,3) by (auto simp: glob_def matchesGlob_indexFilePath)
  have "parsePath (indexFilePath indexName ''kubernetes'') = (''kubernetes'', indexName)"
    using assms(2) by (simp add: parsePath_indexFilePath)
  from bexI [of "\<lambda>q. parsePath q = (''kubernetes'', indexName)", OF this listed]
  have "indexName \<in> set k"
    unfolding ks set_kubernetesNames .
  with assms(1,4)
  have "\<exists>n \<in> set k. n \<noteq> [] \<and> map_of d (indexFilePath n ''mesos'') = None"
    by (intro bexI [of _ indexName] conjI)
  from split_list_first_prop [OF this] obtain before n after where
    s: "k = before @ n # after" and n: "n \<noteq> []" "map_of d (indexFilePath n ''mesos'') = None"
    and b: "\<forall>b \<in> set before. \<not> (b \<noteq> [] \<and> map_of d (indexFilePath b ''mesos'') = None)"
    by (elim exE conjE)
  from s have mem: "n \<in> set k" "set before \<subseteq> set k" by auto
  from present [OF mem(1) n(1)] have pn: "map_of d (indexFilePath n ''kubernetes'') \<noteq> None" .
  have bm: "\<forall>b \<in> set before. b = [] \<or> map_of d (indexFilePath b ''mesos'') \<noteq> None"
  proof
    fix c
    assume "c \<in> set before"
    with b have "\<not> (c \<noteq> [] \<and> map_of d (indexFilePath c ''mesos'') = None)"
      by (rule bspec)
    then show "c = [] \<or> map_of d (indexFilePath c ''mesos'') \<noteq> None"
      by (simp only: de_Morgan_conj not_not)
  qed
  have pb: "\<forall>b \<in> set before. b = [] \<or> (map_of d (indexFilePath b ''kubernetes'') \<noteq> None
                                   \<and> map_of d (indexFilePath b ''mesos'') \<noteq> None)"
  proof
    fix c
    assume c: "c \<in> set before"
    with mem(2) have ck: "c \<in> set k" by (rule subsetD)
    from bm c have "c = [] \<or> map_of d (indexFilePath c ''mesos'') \<noteq> None"
      by (rule bspec)
    then show "c = [] \<or> (map_of d (indexFilePath c ''kubernetes'') \<noteq> None
                    \<and> map_of d (indexFilePath c ''mesos'') \<noteq> None)"
    proof
      assume "c = []"
      then show ?thesis by (rule disjI1)
    next
      assume m: "map_of d (indexFilePath c ''mesos'') \<noteq> None"
      show ?thesis
      proof (cases "c = []")
        case True
        then show ?thesis by (rule disjI1)
      next
        case False
        from present [OF ck False] m show ?thesis by (intro disjI2 conjI)
      qed
    qed
  qed
  from eachKubernetes_first_missing [OF pb n(1) pn n(2), of after "[]" "[]"]
  have "eachKubernetes d k ([], []) = Inl (ENOENT (indexFilePath n ''mesos''))"
    unfolding s .
  with g have e: "getDifferentIndices d = Inl (ENOENT (indexFilePath n ''mesos''))"
    by (simp add: getDifferentIndices_def)
  from s ks have s': "kubernetesNames d = before @ n # after" by simp
  have "kubernetesNames d = before @ n # after
        \<and> (\<forall>b \<in> set before. b = [] \<or> map_of d (indexFilePath b ''mesos'') \<noteq> None)
        \<and> n \<noteq> [] \<and> map_of d (indexFilePath n ''mesos'') = None
        \<and> getDifferentIndices d = Inl (ENOENT (indexFilePath n ''mesos''))"
    by (intro conjI) (rule s' bm n e)+
  then have "\<exists>before n after.
                kubernetesNames d = before @ n # after
                \<and> (\<forall>b \<in> set before. b = [] \<or> map_of d (indexFilePath b ''mesos'') \<noteq> None)
                \<and> n \<noteq> [] \<and> map_of d (indexFilePath n ''mesos'') = None
                \<and> getDifferentIndices d = Inl (ENOENT (indexFilePath n ''mesos''))"
    by (intro exI)
  then show ?thesis
    unfolding if_P [OF True] .
qed

theorem getDifferentIndices_missing_mesos_witness:
  "''docs'' \<noteq> [] \<and> CHR ''/'' \<notin> set ''docs''
   \<and> indexFilePath ''docs'' ''kubernetes'' \<in> fst ` set [(indexFilePath ''docs'' ''kubernetes'', 500::nat)]
   \<and> map_of [(indexFilePath ''docs'' ''kubernetes'', 500::nat)] (indexFilePath ''docs'' ''mesos'') = None
   \<and> getDifferentIndices [(indexFilePath ''docs'' ''kubernetes'', 500)]
       = Inl (ENOENT ''./dist/indices/docs-mesos.json'')
   \<and> getDifferentIndices [(indexFilePath ''api'' ''kubernetes'', 200), (indexFilePath ''docs'' ''kubernetes'', 500)]
       = Inl (ENOENT ''./dist/indices/api-mesos.json'')
   \<and> getDifferentIndices [(indexFilePath ''docs'' ''kubernetes'', 500), (''./dist/indices/notes.json'', 7)]
       = Inl (TypeError ''push'')"
proof -
  have e: "getDifferentIndices [(indexFilePath ''docs'' ''kubernetes'', 500)]
       = Inl (ENOENT ''./dist/indices/docs-mesos.json'')"
    "getDifferentIndices [(indexFilePath ''api'' ''kubernetes'', 200), (indexFilePath ''docs'' ''kubernetes'', 500)]
       = Inl (ENOENT ''./dist/indices/api-mesos.json'')"
    "getDifferentIndices [(indexFilePath ''docs'' ''kubernetes'', 500), (''./dist/indices/notes.json'', 7)]
       = Inl (TypeError ''push'')"
    by code_simp+
  have m: "map_of [(indexFilePath ''docs'' ''kubernetes'', 500::nat)] (indexFilePath ''docs'' ''mesos'') = None"
    by (simp add: indexFilePath_def)
  from getDifferentIndices_missing_mesos [of "''docs''" "[(indexFilePath ''docs'' ''kubernetes'', 500)]"] e m
  show ?thesis by simp
qed

text \<open>
  A kubernetes artifact with an empty index name is skipped by the guard \<^verbatim>\<open>if (!indexName)\<close>,
  and one whose index name has a slash lies in a subdirectory the glob does not list: in
  both cases no mesos artifact exists and the report is returned, empty, with no error.
\<close>

theorem getDifferentIndices_skips_counterexample:
  "getDifferentIndices [(indexFilePath [] ''kubernetes'', 500)] = Inr []
   \<and> map_of [(indexFilePath [] ''kubernetes'', 500::nat)] (indexFilePath [] ''mesos'') = None
   \<and> getDifferentIndices [(indexFilePath ''a/b'' ''kubernetes'', 500)] = Inr []
   \<and> map_of [(indexFilePath ''a/b'' ''kubernetes'', 500::nat)] (indexFilePath ''a/b'' ''mesos'') = None"
  by code_simp

section \<open>Download orchestrator\<close>

lemma indexFilePath_inject:
  assumes "indexFilePath i a = indexFilePath j b" and "a \<in> set apps" and "b \<in> set apps"
  shows "i = j \<and> a = b"
proof -
  from assms(1) have e: "i @ CHR ''-'' # a = j @ CHR ''-'' # b"
    by (simp add: indexFilePath_def)
  from assms(2,3) have "CHR ''-'' \<notin> set a" and "CHR ''-'' \<notin> set b"
    by (auto simp: apps_def)
  then have "js_split CHR ''-'' (i @ CHR ''-'' # a) = js_split CHR ''-'' i @ [a]"
    and "js_split CHR ''-'' (j @ CHR ''-'' # b) = js_split CHR ''-'' j @ [b]"
    by (simp_all add: js_split_append_sep)
  with e have "a = b" by simp
  with e show ?thesis by simp
qed

lemma downloadOne_cached:
  "indexFiles s (indexFilePath i a) \<noteq> None \<Longrightarrow> downloadOne w i a s = Some s"
  by (simp add: downloadOne_def)

lemma downloadOne_fetch:
  assumes "indexFiles s (indexFilePath i a) = None" and "a \<in> set apps"
  shows "downloadOne w i a s =
     Some (s\<lparr> browseCalls := browseCalls s @ [(a, i)],
              indexFiles := (indexFiles s)(indexFilePath i a \<mapsto> artifactOf w a i),
              written := written s @ [indexFilePath i a] \<rparr>)"
  using assms
  by (simp add: downloadOne_def getRecordsFromIndex_def artifactOf_def Let_def split: sum.splits)

lemma pMap_append:
  "pMap f (xs @ ys) s = (case pMap f xs s of None \<Rightarrow> None | Some s' \<Rightarrow> pMap f ys s')"
  by (induction xs arbitrary: s) (auto split: option.splits)

lemma pMap_apps:
  "pMap (\<lambda>appName. downloadOne w i appName) as s =
   pMap (\<lambda>(indexName, appName). downloadOne w indexName appName) (map (\<lambda>appName. (i, appName)) as) s"
  by (induction as arbitrary: s) (auto split: option.splits)

lemma downloadAll_flat:
  "downloadAll w indices s =
   pMap (\<lambda>(indexName, appName). downloadOne w indexName appName) (pairsOf indices) s"
  unfolding downloadAll_def pairsOf_def
  by (induction indices arbitrary: s) (auto simp: pMap_append pMap_apps split: option.splits)

lemma set_pairsOf: "set (pairsOf indices) = set indices \<times> set apps"
  by (auto simp: pairsOf_def)

lemma pMap_pairs:
  assumes "\<forall>(j, b) \<in> set ps. b \<in> set apps" and "a \<in> set apps"
  shows "\<exists>s'. pMap (\<lambda>(indexName, appName). downloadOne w indexName appName) ps s = Some s'
     \<and> indexFiles s' (indexFilePath i a) =
         (if (i, a) \<in> set ps \<and> indexFiles s (indexFilePath i a) = None
          then Some (artifactOf w a i) else indexFiles s (indexFilePath i a))
     \<and> count_list (browseCalls s') (a, i) = count_list (browseCalls s) (a, i) +
         (if (i, a) \<in> set ps \<and> indexFiles s (indexFilePath i a) = None then 1 else 0)
     \<and> count_list (written s') (indexFilePath i a) = count_list (written s) (indexFilePath i a) +
         (if (i, a) \<in> set ps \<and> indexFiles s (indexFilePath i a) = None then 1 else 0)"
  using assms(1)
proof (induction ps arbitrary: s)
  case Nil
  then show ?case by simp
next
  case (Cons jb ps)
  obtain j b where jb: "jb = (j, b)" by (cases jb)
  with Cons.prems have b: "b \<in> set apps" and rest: "\<forall>(j, b) \<in> set ps. b \<in> set apps"
    by auto
  show ?case
  proof (cases "indexFiles s (indexFilePath j b) = None")
    case False
    then have "downloadOne w j b s = Some s" by (rule downloadOne_cached)
    moreover from False have "(j, b) = (i, a) \<Longrightarrow> indexFiles s (indexFilePath i a) \<noteq> None"
      by auto
    ultimately show ?thesis
      using Cons.IH [OF rest, of s] jb by auto
  next
    case True
    define s1 where "s1 = s\<lparr> browseCalls := browseCalls s @ [(b, j)],
              indexFiles := (indexFiles s)(indexFilePath j b \<mapsto> artifactOf w b j),
              written := written s @ [indexFilePath j b] \<rparr>"
    from downloadOne_fetch [OF True b] have d: "downloadOne w j b s = Some s1"
      by (simp add: s1_def)
    show ?thesis
    proof (cases "(j, b) = (i, a)")
      case same: True
      then have "indexFiles s1 (indexFilePath i a) = Some (artifactOf w a i)"
        and "count_list (browseCalls s1) (a, i) = count_list (browseCalls s) (a, i) + 1"
        and "count_list (written s1) (indexFilePath i a) = count_list (written s) (indexFilePath i a) + 1"
        by (auto simp: s1_def)
      with Cons.IH [OF rest, of s1] d jb same True show ?thesis by auto
    next
      case other: False
      then have p: "indexFilePath j b \<noteq> indexFilePath i a"
        using indexFilePath_inject [OF _ b assms(2)] by blast
      with other have "indexFiles s1 (indexFilePath i a) = indexFiles s (indexFilePath i a)"
        and "count_list (browseCalls s1) (a, i) = count_list (browseCalls s) (a, i)"
        and "count_list (written s1) (indexFilePath i a) = count_list (written s) (indexFilePath i a)"
        by (auto simp: s1_def)
      with Cons.IH [OF rest, of s1] d jb other show ?thesis by auto
    qed
  qed
qed

text \<open>
  C6. The batch always returns, and what it leaves for a pair of one of its indices and an
  app depends on that pair alone. A pair whose file is already there is skipped: the file
  is unchanged, and the pair is neither fetched nor written. For any other pair the remote
  records are fetched once and one file is written: the normalized records when the fetch
  succeeds, the text \<^verbatim>\<open>ERROR: \<close> followed by the message when it fails. So a failure of one
  pair changes nothing for any other pair, the same index on the other app included.
\<close>

theorem downloadAll_isolated:
  assumes "indexName \<in> set indices" and "appName \<in> set apps"
  shows "\<exists>s'. downloadAll w indices s = Some s'
     \<and> (case indexFiles s (indexFilePath indexName appName) of
          Some old \<Rightarrow>
            indexFiles s' (indexFilePath indexName appName) = Some old
            \<and> count_list (browseCalls s') (appName, indexName)
                = count_list (browseCalls s) (appName, indexName)
            \<and> count_list (written s') (indexFilePath indexName appName)
                = count_list (written s) (indexFilePath indexName appName)
        | None \<Rightarrow>
            indexFiles s' (indexFilePath indexName appName) =
              Some (case browseAll w appName indexName of
                      Inl msg \<Rightarrow> RawText (''ERROR: '' @ msg)
                    | Inr result \<Rightarrow> Records (sortedResults result))
            \<and> count_list (browseCalls s') (appName, indexName)
                = count_list (browseCalls s) (appName, indexName) + 1
            \<and> count_list (written s') (indexFilePath indexName appName)
                = count_list (written s) (indexFilePath indexName appName) + 1)"
proof -
  have "\<forall>(j, b) \<in> set (pairsOf indices). b \<in> set apps"
    by (auto simp: set_pairsOf)
  from pMap_pairs [OF this assms(2), of w s indexName] assms
  show ?thesis
    by (auto simp: downloadAll_flat set_pairsOf artifactOf_def split: option.splits)
qed


lemma sortedResults_hitX:
  "sortedResults [hitX] = [[(''url'', JStr ''/docs/install''), (''content'', JStr ''x'')]]"
  by code_simp

theorem downloadAll_isolated_witness:
  "''docs'' \<in> set [''docs'', ''api''] \<and> ''api'' \<in> set [''docs'', ''api'']
   \<and> ''mesos'' \<in> set apps \<and> ''kubernetes'' \<in> set apps
   \<and> (\<exists>s'. downloadAll flakyWorld [''docs'', ''api''] cachedDisk = Some s'
         \<and> indexFiles s' (indexFilePath ''docs'' ''mesos'') = Some (RawText ''ERROR: down'')
         \<and> indexFiles s' (indexFilePath ''docs'' ''kubernetes'') = Some (RawText ''old'')
         \<and> count_list (browseCalls s') (''kubernetes'', ''docs'') = 0
         \<and> count_list (written s') (indexFilePath ''docs'' ''kubernetes'') = 0
         \<and> indexFiles s' (indexFilePath ''api'' ''mesos'') =
             Some (Records [[(''url'', JStr ''/docs/install''), (''content'', JStr ''x'')]])
         \<and> count_list (browseCalls s') (''mesos'', ''api'') = 1)"
proof -
  have m: "''mesos'' \<in> set apps" and k: "''kubernetes'' \<in> set apps"
    by (simp_all add: apps_def)
  have d: "''docs'' \<in> set [''docs'', ''api'']" and a: "''api'' \<in> set [''docs'', ''api'']"
    by simp_all
  have f: "indexFiles cachedDisk (indexFilePath ''docs'' ''mesos'') = None"
    "indexFiles cachedDisk (indexFilePath ''docs'' ''kubernetes'') = Some (RawText ''old'')"
    "indexFiles cachedDisk (indexFilePath ''api'' ''mesos'') = None"
    "browseCalls cachedDisk = []" "written cachedDisk = []"
    by (simp_all add: cachedDisk_def emptyDisk_def indexFilePath_def)
  have b: "browseAll flakyWorld ''mesos'' ''docs'' = Inl ''down''"
    "browseAll flakyWorld ''mesos'' ''api'' = Inr [hitX]"
    by (simp_all add: flakyWorld_def)
  from downloadAll_isolated [OF d m, of flakyWorld cachedDisk]
    downloadAll_isolated [OF d k, of flakyWorld cachedDisk]
    downloadAll_isolated [OF a m, of flakyWorld cachedDisk]
  show ?thesis
    by (auto simp: f b m k sortedResults_hitX)
qed

section \<open>Record normalizer: the order of the output\<close>

lemma compareAscending_refl: "compareAscending a a = 0"
  by (simp add: compareAscending_def)

lemma compareAscending_range: "compareAscending a b \<in> {- 1, 0, 1}"
  by (simp add: compareAscending_def Let_def)

lemma compareAscending_zero:
  "comparable a b \<Longrightarrow> (compareAscending a b = 0) = (a = b)"
  by (induction a b rule: comparable.induct) (auto simp: compareAscending_def Let_def)

lemma compareAscending_flip:
  "comparable a b \<Longrightarrow> compareAscending b a = - compareAscending a b"
  by (induction a b rule: comparable.induct) (auto simp: compareAscending_def Let_def)

lemma comparable_left:
  "comparable a b \<Longrightarrow>
   a = None \<or> a = Some JNull \<or> (\<exists>s. a = Some (JStr s)) \<or> (\<exists>n. a = Some (JNum n))"
  by (induction a b rule: comparable.induct) auto

lemma comparable_right:
  "comparable a b \<Longrightarrow>
   b = None \<or> b = Some JNull \<or> (\<exists>s. b = Some (JStr s)) \<or> (\<exists>n. b = Some (JNum n))"
  by (induction a b rule: comparable.induct) auto

lemma cmp_undefined:
  "compareAscending None None = 0"
  "compareAscending None (Some v) = 1"
  "compareAscending (Some v) None = - 1"
  by (simp_all add: compareAscending_def)

lemma cmp_null:
  "compareAscending (Some JNull) (Some JNull) = 0"
  "compareAscending (Some JNull) (Some (JStr s)) = 1"
  "compareAscending (Some (JStr s)) (Some JNull) = - 1"
  "compareAscending (Some JNull) (Some (JNum n)) = 1"
  "compareAscending (Some (JNum n)) (Some JNull) = - 1"
  by (simp_all add: compareAscending_def)

lemma cmp_str:
  "compareAscending (Some (JStr a)) (Some (JStr b)) = (if a < b then - 1 else if a = b then 0 else 1)"
  by (auto simp: compareAscending_def)

lemma cmp_num:
  "compareAscending (Some (JNum m)) (Some (JNum n)) = (if m < n then - 1 else if m = n then 0 else 1)"
  by (auto simp: compareAscending_def)

lemma compareAscending_less_iff:
  "comparable a b \<Longrightarrow>
   (compareAscending a b = - 1) =
     (keyRank a < keyRank b \<or> (keyRank a = 0 \<and> keyRank b = 0 \<and> js_lt a b))"
  by (induction a b rule: comparable.induct) (auto simp: compareAscending_def Let_def)

lemma js_lt_trans: "js_lt a b \<Longrightarrow> js_lt b c \<Longrightarrow> js_lt a c"
proof (cases a; cases b; cases c)
  fix x y z
  assume "js_lt a b" and "js_lt b c" and "a = Some x" and "b = Some y" and "c = Some z"
  then show "js_lt a c"
    by (cases x; cases y; cases z) (auto intro: less_trans split: if_splits)
qed simp_all

lemma compareAscending_trans:
  assumes "comparable a b" and "comparable b c" and "comparable a c"
      and "compareAscending a b = - 1" and "compareAscending b c = - 1"
  shows "compareAscending a c = - 1"
  using assms(4,5) js_lt_trans [of a b c]
  unfolding compareAscending_less_iff [OF assms(1)] compareAscending_less_iff [OF assms(2)]
    compareAscending_less_iff [OF assms(3)]
  by auto


lemma compareCriteria_refl: "compareCriteria xs xs = 0"
  by (induction xs) (auto simp: compareAscending_refl)

lemma compareCriteria_range: "compareCriteria xs ys \<in> {- 1, 0, 1}"
  using compareAscending_range
  by (induction xs ys rule: compareCriteria.induct) (auto simp: Let_def)

lemma compareCriteria_zero:
  "list_all2 comparable xs ys \<Longrightarrow> (compareCriteria xs ys = 0) = (xs = ys)"
  by (induction rule: list_all2_induct) (auto simp: Let_def compareAscending_zero)

lemma compareCriteria_flip:
  "list_all2 comparable xs ys \<Longrightarrow> compareCriteria ys xs = - compareCriteria xs ys"
proof (induction rule: list_all2_induct)
  case Nil
  then show ?case by simp
next
  case (Cons x xs y ys)
  then show ?case
    using compareAscending_flip [of x y] by (auto simp: Let_def)
qed

lemma compareCriteria_trans:
  assumes "list_all2 comparable xs ys" and "list_all2 comparable ys zs"
      and "list_all2 comparable xs zs"
      and "compareCriteria xs ys = - 1" and "compareCriteria ys zs = - 1"
  shows "compareCriteria xs zs = - 1"
  using assms
proof (induction xs arbitrary: ys zs)
  case Nil
  then show ?case by simp
next
  case (Cons x xs)
  from Cons.prems(1) obtain y ys' where ys: "ys = y # ys'" and xy: "comparable x y"
    and r1: "list_all2 comparable xs ys'"
    by (auto simp: list_all2_Cons1)
  from Cons.prems(2) ys obtain z zs' where zs: "zs = z # zs'" and yz: "comparable y z"
    and r2: "list_all2 comparable ys' zs'"
    by (auto simp: list_all2_Cons1)
  from Cons.prems(3) zs have xz: "comparable x z" and r3: "list_all2 comparable xs zs'"
    by auto
  have rng: "compareAscending x y \<in> {- 1, 0, 1}" "compareAscending y z \<in> {- 1, 0, 1}"
    by (rule compareAscending_range)+
  consider "compareAscending x y = - 1" "compareAscending y z = - 1"
    | "compareAscending x y = - 1" "y = z"
    | "x = y" "compareAscending y z = - 1"
    | "x = y" "y = z" "compareCriteria xs ys' = - 1" "compareCriteria ys' zs' = - 1"
    using Cons.prems(4,5) rng compareAscending_zero [OF xy] compareAscending_zero [OF yz]
    unfolding ys zs by (auto simp: Let_def split: if_splits)
  then show ?case
  proof cases
    case 1
    from compareAscending_trans [OF xy yz xz 1] show ?thesis by (simp add: zs)
  next
    case 2
    then show ?thesis by (simp add: zs)
  next
    case 3
    then show ?thesis by (simp add: zs)
  next
    case 4
    from Cons.IH [OF r1 r2 r3 4(3,4)] 4(1,2) show ?thesis
      by (simp add: zs compareAscending_refl)
  qed
qed

lemma compareMultiple_total:
  assumes "list_all2 comparable (criteria a) (criteria b)"
  shows "compareMultiple a b \<le> 0 \<or> compareMultiple b a \<le> 0"
  using compareCriteria_flip [OF assms] compareCriteria_range [of "criteria a" "criteria b"]
  by (auto simp: compareMultiple_def Let_def)

lemma compareMultiple_le_iff:
  "(compareMultiple a b \<le> 0) =
   (compareCriteria (criteria a) (criteria b) = - 1
    \<or> (compareCriteria (criteria a) (criteria b) = 0 \<and> index a \<le> index b))"
  using compareCriteria_range [of "criteria a" "criteria b"]
  by (auto simp: compareMultiple_def Let_def)

lemma compareMultiple_trans:
  assumes "list_all2 comparable (criteria a) (criteria b)"
      and "list_all2 comparable (criteria b) (criteria c)"
      and "list_all2 comparable (criteria a) (criteria c)"
      and "compareMultiple a b \<le> 0" and "compareMultiple b c \<le> 0"
  shows "compareMultiple a c \<le> 0"
  using assms(4,5) compareCriteria_trans [OF assms(1,2,3)]
    compareCriteria_zero [OF assms(1)] compareCriteria_zero [OF assms(2)]
  unfolding compareMultiple_le_iff
  by (auto simp: compareCriteria_refl)


lemma set_insertBy: "set (insertBy comparer x ys) = insert x (set ys)"
  by (induction ys) auto

lemma set_nativeSort: "set (nativeSort comparer xs) = set xs"
  by (induction xs) (auto simp: nativeSort_def set_insertBy)

lemma sorted_insertBy:
  assumes "sorted_wrt (\<lambda>a b. compareMultiple a b \<le> 0) ys" and "keyed (insert x (set ys))"
  shows "sorted_wrt (\<lambda>a b. compareMultiple a b \<le> 0) (insertBy compareMultiple x ys)"
  using assms
proof (induction ys)
  case Nil
  then show ?case by simp
next
  case (Cons y ys)
  from Cons.prems(2) have k: "keyed (insert x (set ys))"
    by (auto simp: keyed_def)
  from Cons.prems(2) have xy: "list_all2 comparable (criteria x) (criteria y)"
    and yx: "list_all2 comparable (criteria y) (criteria x)"
    by (auto simp: keyed_def)
  show ?case
  proof (cases "compareMultiple x y \<le> 0")
    case True
    have "compareMultiple x z \<le> 0" if "z \<in> set ys" for z
    proof -
      from that Cons.prems(1) have "compareMultiple y z \<le> 0" by simp
      moreover from that Cons.prems(2)
      have "list_all2 comparable (criteria y) (criteria z)"
        and "list_all2 comparable (criteria x) (criteria z)"
        by (auto simp: keyed_def)
      ultimately show ?thesis using compareMultiple_trans [OF xy _ _ True] by blast
    qed
    with True Cons.prems(1) show ?thesis by simp
  next
    case False
    with compareMultiple_total [OF xy] have "compareMultiple y x \<le> 0" by simp
    with False Cons.prems(1) Cons.IH [OF _ k] show ?thesis
      by (auto simp: set_insertBy)
  qed
qed

lemma sorted_nativeSort:
  "keyed (set xs) \<Longrightarrow> sorted_wrt (\<lambda>a b. compareMultiple a b \<le> 0) (nativeSort compareMultiple xs)"
proof (induction xs)
  case Nil
  then show ?case by (simp add: nativeSort_def)
next
  case (Cons x xs)
  from Cons.prems have "keyed (set xs)" by (auto simp: keyed_def)
  from Cons.IH [OF this] have "sorted_wrt (\<lambda>a b. compareMultiple a b \<le> 0) (nativeSort compareMultiple xs)" .
  moreover from Cons.prems have "keyed (insert x (set (nativeSort compareMultiple xs)))"
    by (simp add: set_nativeSort)
  ultimately have "sorted_wrt (\<lambda>a b. compareMultiple a b \<le> 0)
      (insertBy compareMultiple x (nativeSort compareMultiple xs))"
    by (rule sorted_insertBy)
  then show ?case by (simp add: nativeSort_def)
qed

lemma filter_insertBy:
  assumes "\<forall>y \<in> set ys. index x < index y"
  shows "filter (\<lambda>e. criteria e = k) (insertBy compareMultiple x ys) =
         filter (\<lambda>e. criteria e = k) (x # ys)"
  using assms
proof (induction ys)
  case Nil
  then show ?case by simp
next
  case (Cons y ys)
  show ?case
  proof (cases "compareMultiple x y \<le> 0")
    case True
    then show ?thesis by simp
  next
    case False
    have "criteria y \<noteq> criteria x"
    proof
      assume "criteria y = criteria x"
      with Cons.prems have "compareMultiple x y \<le> 0"
        by (simp add: compareMultiple_def compareCriteria_refl)
      with False show False by simp
    qed
    with False Cons show ?thesis by auto
  qed
qed

lemma filter_nativeSort:
  "sorted_wrt (\<lambda>a b. index a < index b) xs \<Longrightarrow>
   filter (\<lambda>e. criteria e = k) (nativeSort compareMultiple xs) = filter (\<lambda>e. criteria e = k) xs"
proof (induction xs)
  case Nil
  then show ?case by (simp add: nativeSort_def)
next
  case (Cons x xs)
  then have "\<forall>y \<in> set (nativeSort compareMultiple xs). index x < index y"
    by (simp add: set_nativeSort)
  from filter_insertBy [OF this, of k] Cons show ?case
    by (simp add: nativeSort_def)
qed


lemma entries_from:
  "e \<in> set (map (\<lambda>(i, r). \<lparr> criteria = map (\<lambda>p. property p r) paths, index = i, item = r \<rparr>)
               (enumerate n rs)) \<Longrightarrow>
   criteria e = map (\<lambda>p. property p (item e)) paths \<and> item e \<in> set rs \<and> n \<le> index e"
  by (induction rs arbitrary: n) (auto, fastforce+)

lemma entries_index_sorted:
  "sorted_wrt (\<lambda>a b. index a < index b)
     (map (\<lambda>(i, r). \<lparr> criteria = map (\<lambda>p. property p r) paths, index = i, item = r \<rparr>)
        (enumerate n rs))"
proof (induction rs arbitrary: n)
  case Nil
  then show ?case by simp
next
  case (Cons r rs)
  have "n < index e"
    if "e \<in> set (map (\<lambda>(i, r). \<lparr> criteria = map (\<lambda>p. property p r) paths, index = i, item = r \<rparr>)
               (enumerate (Suc n) rs))" for e
    using entries_from [OF that] by simp
  with Cons [of "Suc n"] show ?case by simp
qed

lemma toEntries_criteria:
  "e \<in> set (toEntries sortKeys rs) \<Longrightarrow> criteria e = keysOf (item e) \<and> item e \<in> set rs"
  unfolding toEntries_def keysOf_def by (drule entries_from) simp

lemma toEntries_index_sorted: "sorted_wrt (\<lambda>a b. index a < index b) (toEntries paths rs)"
  unfolding toEntries_def by (rule entries_index_sorted)

lemma property_omit_key:
  assumes "path \<noteq> key" and "js_split CHR ''.'' path = k # ks" and "k \<noteq> key"
  shows "property path (omit key r) = property path r"
  using assms by (simp add: property_def map_of_omit)

lemma sortKeys_split:
  assumes "path \<in> set sortKeys"
  shows "path \<noteq> ''objectID''
       \<and> (\<exists>k ks. js_split CHR ''.'' path = k # ks \<and> k \<noteq> ''objectID'')"
  using assms unfolding sortKeys_def by (elim set_ConsD [elim_format] disjE; simp)

lemma property_omit:
  assumes "path \<in> set sortKeys"
  shows "property path (omit ''objectID'' r) = property path r"
  using sortKeys_split [OF assms] by (auto intro: property_omit_key)

lemma keysOf_omit: "keysOf (omit ''objectID'' r) = keysOf r"
  by (simp add: keysOf_def property_omit)

lemma uniformKeys_keyed:
  assumes "uniformKeys result"
  shows "keyed (set (toEntries sortKeys (map (omit ''objectID'') result)))"
  unfolding keyed_def
proof (intro ballI)
  fix a b
  assume "a \<in> set (toEntries sortKeys (map (omit ''objectID'') result))"
    and "b \<in> set (toEntries sortKeys (map (omit ''objectID'') result))"
  then obtain r r' where "criteria a = keysOf r" "r \<in> set result"
    "criteria b = keysOf r'" "r' \<in> set result"
    by (auto dest!: toEntries_criteria simp: keysOf_omit)
  with assms show "list_all2 comparable (criteria a) (criteria b)"
    by (simp add: uniformKeys_def list_all_iff)
qed

lemma sortedResults_sorted:
  assumes "uniformKeys result"
  shows "sorted_wrt (\<lambda>a b. compareCriteria (keysOf a) (keysOf b) \<le> 0) (sortedResults result)"
proof -
  let ?es = "toEntries sortKeys (map (omit ''objectID'') result)"
  have "sorted_wrt (\<lambda>a b. compareMultiple a b \<le> 0) (nativeSort compareMultiple ?es)"
    using uniformKeys_keyed [OF assms] by (rule sorted_nativeSort)
  then have "sorted_wrt (\<lambda>a b. compareCriteria (keysOf (item a)) (keysOf (item b)) \<le> 0)
      (nativeSort compareMultiple ?es)"
  proof (rule sorted_wrt_mono_rel [rotated])
    fix a b
    assume "a \<in> set (nativeSort compareMultiple ?es)" "b \<in> set (nativeSort compareMultiple ?es)"
      and le: "compareMultiple a b \<le> 0"
    then have "criteria a = keysOf (item a)" "criteria b = keysOf (item b)"
      by (auto simp: set_nativeSort dest: toEntries_criteria)
    with le show "compareCriteria (keysOf (item a)) (keysOf (item b)) \<le> 0"
      by (auto simp: compareMultiple_le_iff)
  qed
  then show ?thesis
    by (simp add: sortedResults_def sortBy_def sorted_wrt_map)
qed

lemma sortedResults_stable:
  "filter (\<lambda>r. keysOf r = k) (sortedResults result) =
   filter (\<lambda>r. keysOf r = k) (map (omit ''objectID'') result)"
proof -
  let ?rs = "map (omit ''objectID'') result"
  let ?es = "toEntries sortKeys ?rs"
  have c: "filter (\<lambda>e. keysOf (item e) = k) xs = filter (\<lambda>e. criteria e = k) xs"
    if "set xs \<subseteq> set ?es" for xs
  proof (rule filter_cong [OF refl])
    fix e
    assume "e \<in> set xs"
    with that have "e \<in> set ?es" by blast
    from toEntries_criteria [OF this] show "(keysOf (item e) = k) = (criteria e = k)" by simp
  qed
  have "filter (\<lambda>r. keysOf r = k) (sortedResults result) =
      map item (filter (\<lambda>e. keysOf (item e) = k) (nativeSort compareMultiple ?es))"
    by (simp add: sortedResults_def sortBy_def filter_map comp_def)
  also have "\<dots> = map item (filter (\<lambda>e. criteria e = k) (nativeSort compareMultiple ?es))"
    by (simp add: c set_nativeSort)
  also have "\<dots> = map item (filter (\<lambda>e. criteria e = k) ?es)"
    by (simp add: filter_nativeSort toEntries_index_sorted)
  also have "\<dots> = map item (filter (\<lambda>e. keysOf (item e) = k) ?es)"
    by (simp add: c)
  also have "\<dots> = filter (\<lambda>r. keysOf r = k) (map item ?es)"
    by (simp add: filter_map comp_def)
  finally show ?thesis by (simp only: map_item_toEntries)
qed

lemma keysOf_url: "keysOf r = property ''url'' r # tl (keysOf r)"
  by (simp add: keysOf_def sortKeys_def)

lemma sortedResults_missing_url_last:
  assumes "uniformKeys result" and "i < j" and "j < length (sortedResults result)"
      and "property ''url'' (sortedResults result ! i) = None"
  shows "property ''url'' (sortedResults result ! j) = None"
proof (rule ccontr)
  assume "property ''url'' (sortedResults result ! j) \<noteq> None"
  then obtain v where v: "property ''url'' (sortedResults result ! j) = Some v" by auto
  from sortedResults_sorted [OF assms(1)] assms(2,3)
  have "compareCriteria (keysOf (sortedResults result ! i)) (keysOf (sortedResults result ! j)) \<le> 0"
    by (simp add: sorted_wrt_iff_nth_less)
  then show False
    by (subst (asm) keysOf_url, subst (asm) (2) keysOf_url)
      (simp add: assms(4) v cmp_undefined)
qed


text \<open>
  C3. For records with uniform keys the output is ascending on the key tuple (url,
  hierarchy.lvl0 to hierarchy.lvl6, weight.position) in lodash's order: strings and numbers
  ascending, and a missing key greater than every present value, so that a record without
  a key field comes after, not before, the records that have it (shown for the first key:
  once a record without url is met, no later record has one). The sort is stable: the
  records of each key tuple keep the order in which they arrived.
\<close>

theorem sortedResults_order:
  assumes "uniformKeys result"
  shows "sorted_wrt (\<lambda>a b. compareCriteria (keysOf a) (keysOf b) \<le> 0) (sortedResults result)
     \<and> (\<forall>k. filter (\<lambda>r. keysOf r = k) (sortedResults result) =
              filter (\<lambda>r. keysOf r = k) (map (omit ''objectID'') result))
     \<and> (\<forall>v. compareAscending None (Some v) = 1 \<and> compareAscending (Some v) None = - 1)
     \<and> (\<forall>i j. i < j \<and> j < length (sortedResults result)
               \<and> property ''url'' (sortedResults result ! i) = None
             \<longrightarrow> property ''url'' (sortedResults result ! j) = None)
     \<and> (\<forall>a b. a < b \<longrightarrow> compareAscending (Some (JStr a)) (Some (JStr b)) = - 1)
     \<and> (\<forall>m n. m < n \<longrightarrow> compareAscending (Some (JNum m)) (Some (JNum n)) = - 1)"
proof (intro conjI allI impI)
  show "sorted_wrt (\<lambda>a b. compareCriteria (keysOf a) (keysOf b) \<le> 0) (sortedResults result)"
    using assms by (rule sortedResults_sorted)
next
  fix k
  show "filter (\<lambda>r. keysOf r = k) (sortedResults result) =
        filter (\<lambda>r. keysOf r = k) (map (omit ''objectID'') result)"
    by (rule sortedResults_stable)
next
  fix i j
  assume "i < j \<and> j < length (sortedResults result)
          \<and> property ''url'' (sortedResults result ! i) = None"
  then show "property ''url'' (sortedResults result ! j) = None"
    by (elim conjE) (rule sortedResults_missing_url_last [OF assms])
qed (simp_all add: cmp_undefined cmp_str cmp_num)

lemma uniformKeys_sampleHits: "uniformKeys sampleHits"
  by code_simp

lemma sortedResults_sampleHits:
  "sortedResults sampleHits =
     [[(''url'', JStr ''/a''), (''hierarchy'', JObj [(''lvl0'', JStr ''c'')]),
       (''weight'', JObj [(''position'', JNum 1)])],
      [(''url'', JStr ''/a''), (''hierarchy'', JObj [(''lvl0'', JStr ''c'')]),
       (''weight'', JObj [(''position'', JNum 2)])],
      [(''url'', JStr ''/a''), (''hierarchy'', JObj [(''lvl0'', JStr ''z'')])],
      [(''url'', JStr ''/b'')],
      [(''url'', JNull)],
      [(''content'', JStr ''no url'')]]"
  by code_simp

theorem sortedResults_order_witness:
  "uniformKeys sampleHits
   \<and> sortedResults sampleHits =
     [[(''url'', JStr ''/a''), (''hierarchy'', JObj [(''lvl0'', JStr ''c'')]),
       (''weight'', JObj [(''position'', JNum 1)])],
      [(''url'', JStr ''/a''), (''hierarchy'', JObj [(''lvl0'', JStr ''c'')]),
       (''weight'', JObj [(''position'', JNum 2)])],
      [(''url'', JStr ''/a''), (''hierarchy'', JObj [(''lvl0'', JStr ''z'')])],
      [(''url'', JStr ''/b'')],
      [(''url'', JNull)],
      [(''content'', JStr ''no url'')]]
   \<and> sorted_wrt (\<lambda>a b. compareCriteria (keysOf a) (keysOf b) \<le> 0) (sortedResults sampleHits)"
  using sortedResults_order [OF uniformKeys_sampleHits] uniformKeys_sampleHits
    sortedResults_sampleHits
  by blast

text \<open>A record without url is put after the record that has one, though it arrived first.\<close>

theorem sortedResults_missing_first_counterexample:
  "sortedResults [[(''content'', JStr ''x'')], [(''url'', JStr ''/docs'')]] =
     [[(''url'', JStr ''/docs'')], [(''content'', JStr ''x'')]]
   \<and> property ''url'' [(''content'', JStr ''x'')] = None
   \<and> property ''url'' [(''url'', JStr ''/docs'')] = Some (JStr ''/docs'')"
  by code_simp

text \<open>
  With a string and a number under one key the comparator answers 0 for the pair, and the
  output need not be ascending: here \<^verbatim>\<open>b\<close> stays before \<^verbatim>\<open>a\<close>.
\<close>

lemma sortedResults_mixed_keys:
  "sortedResults [[(''url'', JStr ''b'')], [(''url'', JNum 5)], [(''url'', JStr ''a'')]]
     = [[(''url'', JStr ''b'')], [(''url'', JNum 5)], [(''url'', JStr ''a'')]]
   \<and> compareAscending (Some (JStr ''b'')) (Some (JStr ''a'')) = 1"
  by code_simp

subsection \<open>When the output does not depend on the arrival order\<close>

text \<open>
  For records with uniform keys of which no two, without their \<^verbatim>\<open>objectID\<close>, differ and have
  the same key tuple, every arrival order gives the same output.
\<close>

lemma sorted_wrt_unique:
  assumes "sorted_wrt R xs" and "sorted_wrt R ys" and "mset xs = mset ys"
      and "\<And>a b. a \<in> set xs \<Longrightarrow> b \<in> set xs \<Longrightarrow> R a b \<Longrightarrow> R b a \<Longrightarrow> a = b"
  shows "xs = ys"
  using assms
proof (induction xs arbitrary: ys)
  case Nil
  then show ?case by simp
next
  case (Cons x xs)
  from Cons.prems(3) obtain y ys' where ys: "ys = y # ys'"
    by (cases ys) auto
  from Cons.prems(3) have "set (x # xs) = set ys" by (rule mset_eq_setD)
  with ys have s: "insert x (set xs) = insert y (set ys')" by simp
  have "x = y"
  proof (rule ccontr)
    assume n: "x \<noteq> y"
    with s have x: "x \<in> set ys'" and y: "y \<in> set xs" by auto
    from x Cons.prems(2) ys have "R y x" by simp
    moreover from y Cons.prems(1) have "R x y" by simp
    ultimately have "x = y" using Cons.prems(4) [of x y] y by simp
    with n show False by simp
  qed
  have "xs = ys'"
  proof (rule Cons.IH)
    show "sorted_wrt R xs" using Cons.prems(1) by simp
    show "sorted_wrt R ys'" using Cons.prems(2) ys by simp
    show "mset xs = mset ys'" using Cons.prems(3) ys \<open>x = y\<close> by simp
    show "\<And>a b. a \<in> set xs \<Longrightarrow> b \<in> set xs \<Longrightarrow> R a b \<Longrightarrow> R b a \<Longrightarrow> a = b"
      using Cons.prems(4) by simp
  qed
  with \<open>x = y\<close> ys show ?case by simp
qed

lemma uniformKeys_set: "set xs = set ys \<Longrightarrow> uniformKeys xs = uniformKeys ys"
  by (simp add: uniformKeys_def list_all_iff)


lemma set_sortedResults: "set (sortedResults xs) = omit ''objectID'' ` set xs"
proof -
  have "set_mset (mset (sortedResults xs)) = set_mset (mset (map (omit ''objectID'') xs))"
    by (simp only: mset_sortedResults)
  then show ?thesis by simp
qed

lemma sortedResults_deterministic:
  assumes "uniformKeys xs" and "mset xs = mset ys"
      and "inj_on keysOf (omit ''objectID'' ` set xs)"
  shows "sortedResults xs = sortedResults ys"
proof (rule sorted_wrt_unique)
  from assms(2) have e: "set xs = set ys" by (rule mset_eq_setD)
  show "sorted_wrt (\<lambda>a b. compareCriteria (keysOf a) (keysOf b) \<le> 0) (sortedResults xs)"
    using assms(1) by (rule sortedResults_sorted)
  from assms(1) uniformKeys_set [OF e] have "uniformKeys ys" by simp
  then show "sorted_wrt (\<lambda>a b. compareCriteria (keysOf a) (keysOf b) \<le> 0) (sortedResults ys)"
    by (rule sortedResults_sorted)
  have "mset (map (omit ''objectID'') xs) = mset (map (omit ''objectID'') ys)"
    using assms(2) by (metis mset_map)
  then show "mset (sortedResults xs) = mset (sortedResults ys)"
    by (simp only: mset_sortedResults)
next
  fix a b
  assume a: "a \<in> set (sortedResults xs)" and b: "b \<in> set (sortedResults xs)"
    and ab: "compareCriteria (keysOf a) (keysOf b) \<le> 0"
    and ba: "compareCriteria (keysOf b) (keysOf a) \<le> 0"
  from a b obtain r r' where r: "r \<in> set xs" "a = omit ''objectID'' r"
    and r': "r' \<in> set xs" "b = omit ''objectID'' r'"
    unfolding set_sortedResults by blast
  with assms(1) have c: "list_all2 comparable (keysOf a) (keysOf b)"
    by (simp add: uniformKeys_def list_all_iff keysOf_omit)
  from compareCriteria_flip [OF c] ab ba have "compareCriteria (keysOf a) (keysOf b) = 0"
    by simp
  with compareCriteria_zero [OF c] have "keysOf a = keysOf b" by simp
  from inj_onD [OF assms(3) this] a b show "a = b"
    unfolding set_sortedResults by simp
qed

end
